theory Spec2Isabelle
  imports Complex_Main "HOL-Library.Multiset" "HOL-Library.Extended_Nat" "HOL-Library.AList"
    "HOL-Library.Log_Nat"
begin

section \<open>Bin packing: bound estimator, greedy packers, exact search, genetic search\<close>

text \<open>
  Python's unbounded integers are \<open>int\<close>; a bin is an \<open>int list\<close> in placement order,
  a packing an \<open>int list list\<close> in bin-opening order. Exceptions are values of
  \<open>error\<close>, returned on the left of a sum.
\<close>

datatype error = ZeroDivisionError | ValueError | IndexError | KeyError | OverflowError

subsection \<open>Bound estimator (Algoritmos.py, minimo\_teorico)\<close>

text \<open>
  \<open>a / b\<close> on two Python integers is the double nearest to the exact quotient, ties
  to the even significand: 53 significant bits in the binade \<open>2^e \<le> q < 2^(e+1)\<close> of
  the quotient, a spacing of \<open>2^(-1074)\<close> below \<open>2^(-1022)\<close>. It raises
  \<open>ZeroDivisionError\<close> for \<open>b = 0\<close> and \<open>OverflowError\<close> when the rounded quotient
  reaches \<open>2^1024\<close>. A double is kept as the rational number it denotes (a zero
  without its sign). \<open>math.ceil\<close> of a finite double is its exact ceiling.
\<close>

definition round_half_even :: "rat \<Rightarrow> int" where
  "round_half_even x =
     (let f = \<lfloor>x\<rfloor>; d = x - of_int f
      in if d < 1 / 2 then f else if 1 / 2 < d then f + 1 else if even f then f else f + 1)"

definition binade :: "int \<Rightarrow> int \<Rightarrow> int" where
  "binade a b =
     (let e = bitlen a - bitlen b
      in if (2::rat) powi e * of_int b \<le> of_int a then e else e - 1)"

definition nearest_double :: "int \<Rightarrow> int \<Rightarrow> rat" where
  "nearest_double a b =
     (let ulp = (2::rat) powi (max (binade a b) (- 1022) - 52)
      in of_int (round_half_even (of_int a / of_int b / ulp)) * ulp)"

definition true_div :: "int \<Rightarrow> int \<Rightarrow> error + rat" where
  "true_div a b =
     (if b = 0 then Inl ZeroDivisionError
      else if a = 0 then Inr 0
      else
        (let r = nearest_double \<bar>a\<bar> \<bar>b\<bar>
         in if 2 ^ 1024 \<le> r then Inl OverflowError
            else Inr (if (a < 0) = (b < 0) then r else - r)))"

definition math_ceil_div :: "int \<Rightarrow> int \<Rightarrow> error + int" where
  "math_ceil_div a b = (case true_div a b of Inl e \<Rightarrow> Inl e | Inr x \<Rightarrow> Inr \<lceil>x\<rceil>)"

text \<open>The ceiling of the exact quotient, \<open>-((-a) // b)\<close>, for comparison.\<close>

definition ceil_div :: "int \<Rightarrow> int \<Rightarrow> int" where
  "ceil_div a b = - ((- a) div b)"


subsection \<open>Greedy packers (Algoritmos.py)\<close>

text \<open>Next Fit: the body of the loop over \<open>lista_de_objetos[1:]\<close>; \<open>cajas[-1]\<close> is \<open>last cajas\<close>.\<close>

definition next_fit_place :: "int \<Rightarrow> int list list \<Rightarrow> int \<Rightarrow> int list list" where
  "next_fit_place capacidad cajas objeto =
     (if sum_list (last cajas) + objeto \<le> capacidad
      then butlast cajas @ [last cajas @ [objeto]]
      else cajas @ [[objeto]])"

definition next_fit :: "int \<Rightarrow> int list \<Rightarrow> nat \<times> int list list" where
  "next_fit capacidad lista_de_objetos =
     (case lista_de_objetos of
        [] \<Rightarrow> (0, [])
      | primero # resto \<Rightarrow>
          (let cajas = foldl (next_fit_place capacidad) [[primero]] resto
           in (length cajas, cajas)))"

text \<open>
  First Fit: the inner scan with its \<open>break\<close>. \<open>None\<close> is \<open>colocado = False\<close> after the
  scan; \<open>Some\<close> carries the bins with the object appended to the first that fits.
\<close>

fun first_fit_scan :: "int \<Rightarrow> int \<Rightarrow> int list list \<Rightarrow> int list list option" where
  "first_fit_scan capacidad objeto [] = None"
| "first_fit_scan capacidad objeto (caja # resto) =
     (if sum_list caja + objeto \<le> capacidad then Some ((caja @ [objeto]) # resto)
      else map_option ((#) caja) (first_fit_scan capacidad objeto resto))"

definition first_fit_place :: "int \<Rightarrow> int list list \<Rightarrow> int \<Rightarrow> int list list" where
  "first_fit_place capacidad cajas objeto =
     (case first_fit_scan capacidad objeto cajas of
        Some cajas' \<Rightarrow> cajas'
      | None \<Rightarrow> cajas @ [[objeto]])"

definition first_fit :: "int \<Rightarrow> int list \<Rightarrow> nat \<times> int list list" where
  "first_fit capacidad lista_de_objetos =
     (if lista_de_objetos = [] then (0, [])
      else (let cajas = foldl (first_fit_place capacidad) [] lista_de_objetos
            in (length cajas, cajas)))"

text \<open>
  Best Fit: the inner scan carries \<open>(mejor_caja, menor_espacio)\<close>, starting at
  \<open>(-1, capacidad + 1)\<close>; the chained comparison is
  \<open>objeto <= espacio_restante < menor_espacio\<close>.
\<close>

definition best_fit_step :: "int \<Rightarrow> int \<Rightarrow> int \<times> int \<Rightarrow> nat \<times> int list \<Rightarrow> int \<times> int" where
  "best_fit_step capacidad objeto st ic =
     (let espacio_restante = capacidad - sum_list (snd ic)
      in if objeto \<le> espacio_restante \<and> espacio_restante < snd st
         then (int (fst ic), espacio_restante) else st)"

definition best_fit_scan :: "int \<Rightarrow> int \<Rightarrow> int list list \<Rightarrow> int \<times> int" where
  "best_fit_scan capacidad objeto cajas =
     foldl (best_fit_step capacidad objeto) (- 1, capacidad + 1) (List.enumerate 0 cajas)"

definition best_fit_place :: "int \<Rightarrow> int list list \<Rightarrow> int \<Rightarrow> int list list" where
  "best_fit_place capacidad cajas objeto =
     (let mejor_caja = fst (best_fit_scan capacidad objeto cajas)
      in if mejor_caja \<noteq> - 1
         then cajas[nat mejor_caja := cajas ! nat mejor_caja @ [objeto]]
         else cajas @ [[objeto]])"

definition best_fit :: "int \<Rightarrow> int list \<Rightarrow> nat \<times> int list list" where
  "best_fit capacidad lista_de_objetos =
     (if lista_de_objetos = [] then (0, [])
      else (let cajas = foldl (best_fit_place capacidad) [] lista_de_objetos
            in (length cajas, cajas)))"

text \<open>\<open>sorted(xs, reverse=True)\<close>: a stable sort on the negated key.\<close>

definition sorted_reverse :: "int list \<Rightarrow> int list" where
  "sorted_reverse xs = sort_key (\<lambda>x. - x) xs"

definition first_fit_decreasing :: "int \<Rightarrow> int list \<Rightarrow> nat \<times> int list list" where
  "first_fit_decreasing capacidad lista_de_objetos =
     first_fit capacidad (sorted_reverse lista_de_objetos)"

definition best_fit_decreasing :: "int \<Rightarrow> int list \<Rightarrow> nat \<times> int list list" where
  "best_fit_decreasing capacidad lista_de_objetos =
     best_fit capacidad (sorted_reverse lista_de_objetos)"


subsection \<open>Exact solver (Algoritmos.py, resultado\_optimo)\<close>

text \<open>
  The incumbent \<open>(mejor_num_cajas, mejor_cajas)\<close> is the state threaded through the
  search; \<open>float('inf')\<close> is \<open>\<infinity>\<close> of \<open>enat\<close>. The items from \<open>indice\<close> on are
  the list argument, so \<open>indice == n\<close> is the empty list and
  \<open>lista_de_objetos[indice]\<close> its head. The \<open>append\<close>/\<open>pop\<close> pairs around the
  recursive calls restore \<open>cajas_actuales\<close>, so each call receives the extended
  bins and the caller keeps its own.
\<close>

type_synonym incumbent = "enat \<times> int list list"

text \<open>
  \<open>calcular_lower_bound\<close> inside the search takes the ceiling of the exact quotient.
  The division of the first call, the one with the largest remaining weight when no
  size is negative, is the double division above; it is made in \<open>resultado_optimo\<close>
  below, where its exceptions leave the call. The ceiling of the rounded quotient is
  the exact one while dividend and divisor are below \<open>2^53\<close> (lemma
  \<open>math_ceil_div_exact\<close>) and is never larger while the quotient is below \<open>2^53\<close>
  (lemma \<open>math_ceil_div_le\<close>); a smaller bound only lets the search enter branches
  that hold no better packing than the incumbent, so the result is the same.
\<close>

definition calcular_lower_bound :: "int \<Rightarrow> nat \<Rightarrow> int \<Rightarrow> int" where
  "calcular_lower_bound capacidad num_cajas_usadas peso_restante =
     max (int num_cajas_usadas) (ceil_div peso_restante capacidad)"

text \<open>
  \<open>bb_for\<close> is the loop \<open>for i, caja in enumerate(cajas_actuales)\<close> from index \<open>i\<close> on.
  The lower bound is at least the number of bins, hence not negative, and
  \<open>mejor_num_cajas - 1\<close> is compared with a length, so truncation at zero changes
  no comparison.
\<close>

function branch_and_bound :: "int \<Rightarrow> int list \<Rightarrow> int list list \<Rightarrow> int \<Rightarrow> incumbent \<Rightarrow> incumbent"
  and bb_for :: "int \<Rightarrow> int \<Rightarrow> int list \<Rightarrow> int list list \<Rightarrow> int \<Rightarrow> nat \<Rightarrow> incumbent \<Rightarrow> incumbent"
where
  "branch_and_bound capacidad [] cajas_actuales peso_restante mejor =
     (let num_cajas = length cajas_actuales
      in if enat num_cajas < fst mejor then (enat num_cajas, cajas_actuales) else mejor)"
| "branch_and_bound capacidad (peso_objeto # resto) cajas_actuales peso_restante mejor =
     (let lower_bound = calcular_lower_bound capacidad (length cajas_actuales) peso_restante
      in if fst mejor \<le> enat (nat lower_bound) then mejor
         else
           (let nuevo_peso_restante = peso_restante - peso_objeto;
                mejor1 = bb_for capacidad peso_objeto resto cajas_actuales nuevo_peso_restante 0 mejor
            in if enat (length cajas_actuales) < fst mejor1 - 1
               then branch_and_bound capacidad resto (cajas_actuales @ [[peso_objeto]])
                      nuevo_peso_restante mejor1
               else mejor1))"
| "bb_for capacidad peso_objeto resto cajas_actuales nuevo_peso_restante i mejor =
     (if i < length cajas_actuales
      then bb_for capacidad peso_objeto resto cajas_actuales nuevo_peso_restante (Suc i)
             (if sum_list (cajas_actuales ! i) + peso_objeto \<le> capacidad
              then branch_and_bound capacidad resto
                     (cajas_actuales[i := cajas_actuales ! i @ [peso_objeto]])
                     nuevo_peso_restante mejor
              else mejor)
      else mejor)"
  by pat_completeness auto
termination
  by (relation "inv_image (less_than <*lex*> less_than)
        (\<lambda>a. case a of
           Inl (c, xs, cajas, p, m) \<Rightarrow> (2 * length xs, 0)
         | Inr (c, w, xs, cajas, p, i, m) \<Rightarrow> (2 * length xs + 1, length cajas - i))") auto

text \<open>
  With items to place, the first call computes the lower bound before anything else:
  \<open>math.ceil(peso_restante / capacidad)\<close> raises \<open>ZeroDivisionError\<close> for a zero
  capacity and \<open>OverflowError\<close> when the quotient is too large for a double. With no
  items the first call is already the base case and no division is made. A Python
  list holds at most \<open>sys.maxsize\<close> references; the overflow is modelled for the
  lists a call can receive.
\<close>

definition sys_maxsize :: int where
  "sys_maxsize = 2 ^ 63 - 1"

definition resultado_optimo :: "int \<Rightarrow> int list \<Rightarrow> error + incumbent" where
  "resultado_optimo capacidad lista_de_objetos =
     (let peso_total = sum_list lista_de_objetos
      in if lista_de_objetos \<noteq> [] \<and> capacidad = 0 then Inl ZeroDivisionError
         else if lista_de_objetos \<noteq> [] \<and> int (length lista_de_objetos) \<le> sys_maxsize \<and>
                 true_div peso_total capacidad = Inl OverflowError
         then Inl OverflowError
         else Inr (branch_and_bound capacidad lista_de_objetos [] peso_total (\<infinity>, [])))"

subsection \<open>Genetic solver (Genetico.py)\<close>

text \<open>
  The generator of the \<open>random\<close> module is a stream of raw draws \<open>rnd\<close> read at a
  position that every call advances; \<open>random.seed\<close> fixes the stream, so the seed
  parameter is the stream itself. \<open>randint(a, b)\<close> raises on an empty range,
  \<open>random()\<close> is a multiple of \<open>2^-53\<close> in \<open>[0, 1)\<close>, and \<open>sample(pop, k)\<close> raises
  when \<open>k\<close> exceeds the population and otherwise draws without replacement.
\<close>

type_synonym rng = "nat \<Rightarrow> nat"

definition randint :: "rng \<Rightarrow> int \<Rightarrow> int \<Rightarrow> nat \<Rightarrow> error + int \<times> nat" where
  "randint rnd a b pos =
     (if b < a then Inl ValueError
      else Inr (a + int (rnd pos) mod (b - a + 1), Suc pos))"

definition random_float :: "rng \<Rightarrow> nat \<Rightarrow> rat \<times> nat" where
  "random_float rnd pos = (of_int (int (rnd pos) mod 2 ^ 53) / 2 ^ 53, Suc pos)"

fun sample_draw :: "rng \<Rightarrow> 'a list \<Rightarrow> nat \<Rightarrow> nat \<Rightarrow> 'a list \<times> nat" where
  "sample_draw rnd pop 0 pos = ([], pos)"
| "sample_draw rnd pop (Suc k) pos =
     (let i = rnd pos mod length pop;
          r = sample_draw rnd (take i pop @ drop (Suc i) pop) k (Suc pos)
      in (pop ! i # fst r, snd r))"

definition sample :: "rng \<Rightarrow> 'a list \<Rightarrow> nat \<Rightarrow> nat \<Rightarrow> error + 'a list \<times> nat" where
  "sample rnd pop k pos =
     (if length pop < k then Inl ValueError else Inr (sample_draw rnd pop k pos))"

text \<open>
  \<open>min(xs, key=f)\<close>: the first element with the least key; \<open>ValueError\<close> on the empty
  list; an exception of the key function is passed on.
\<close>

fun min_key_from :: "('a \<Rightarrow> error + int) \<Rightarrow> 'a \<Rightarrow> int \<Rightarrow> 'a list \<Rightarrow> error + 'a" where
  "min_key_from key best kbest [] = Inr best"
| "min_key_from key best kbest (x # xs) =
     (case key x of
        Inl e \<Rightarrow> Inl e
      | Inr k \<Rightarrow> if k < kbest then min_key_from key x k xs
                else min_key_from key best kbest xs)"

definition min_key :: "('a \<Rightarrow> error + int) \<Rightarrow> 'a list \<Rightarrow> error + 'a" where
  "min_key key xs =
     (case xs of
        [] \<Rightarrow> Inl ValueError
      | x # rest \<Rightarrow> (case key x of Inl e \<Rightarrow> Inl e | Inr k \<Rightarrow> min_key_from key x k rest))"

text \<open>
  Dictionaries keep insertion order: an association list, updated in place or
  extended at the end (\<open>AList.update\<close>). \<open>items[i]\<close> raises \<open>IndexError\<close> beyond the
  end of \<open>items\<close>, a missing key raises \<open>KeyError\<close>.
\<close>

fun bins_sum_loop :: "int list \<Rightarrow> (nat \<times> int) list \<Rightarrow> (int \<times> int) list \<Rightarrow> error + (int \<times> int) list" where
  "bins_sum_loop items [] bins_sum = Inr bins_sum"
| "bins_sum_loop items ((i, bin_id) # rest) bins_sum =
     (if length items \<le> i then Inl IndexError
      else bins_sum_loop items rest
             (AList.update bin_id
                ((case map_of bins_sum bin_id of None \<Rightarrow> 0 | Some v \<Rightarrow> v) + items ! i)
                bins_sum))"

definition fitness :: "int list \<Rightarrow> int list \<Rightarrow> int \<Rightarrow> error + int" where
  "fitness solution items capacidad =
     (case bins_sum_loop items (List.enumerate 0 solution) [] of
        Inl e \<Rightarrow> Inl e
      | Inr bins_sum \<Rightarrow>
          (let penalty = sum_list (map (\<lambda>w. max 0 (w - capacidad)) (map snd bins_sum))
           in Inr (int (length bins_sum) + penalty * 10)))"

text \<open>\<open>decodificar_bins\<close>: the first loop, then the dictionary of new ids, then the bins.\<close>

fun orden_ids_loop :: "int list \<Rightarrow> int list \<times> int set \<Rightarrow> int list \<times> int set" where
  "orden_ids_loop [] st = st"
| "orden_ids_loop (b # rest) (orden_ids, visto) =
     (if b \<notin> visto then orden_ids_loop rest (orden_ids @ [b], insert b visto)
      else orden_ids_loop rest (orden_ids, visto))"

fun bins_dict_loop :: "(int \<times> nat) list \<Rightarrow> int list \<Rightarrow> (nat \<times> int) list \<Rightarrow> (nat \<times> int list) list
    \<Rightarrow> error + (nat \<times> int list) list" where
  "bins_dict_loop id_map items [] bins_dict = Inr bins_dict"
| "bins_dict_loop id_map items ((i, bin_id) # rest) bins_dict =
     (case map_of id_map bin_id of
        None \<Rightarrow> Inl KeyError
      | Some bid \<Rightarrow>
          if length items \<le> i then Inl IndexError
          else bins_dict_loop id_map items rest
                 (AList.update bid
                    ((case map_of bins_dict bid of None \<Rightarrow> [] | Some caja \<Rightarrow> caja) @ [items ! i])
                    bins_dict))"

fun bins_in_order :: "(nat \<times> int list) list \<Rightarrow> nat list \<Rightarrow> error + int list list" where
  "bins_in_order bins_dict [] = Inr []"
| "bins_in_order bins_dict (i # rest) =
     (case map_of bins_dict i of
        None \<Rightarrow> Inl KeyError
      | Some caja \<Rightarrow>
          (case bins_in_order bins_dict rest of
             Inl e \<Rightarrow> Inl e
           | Inr cajas \<Rightarrow> Inr (caja # cajas)))"

definition decodificar_bins :: "int list \<Rightarrow> int list \<Rightarrow> error + int list list" where
  "decodificar_bins solution items =
     (let orden_ids = fst (orden_ids_loop solution ([], {}));
          id_map = zip orden_ids [0..<length orden_ids]
      in case bins_dict_loop id_map items (List.enumerate 0 solution) [] of
           Inl e \<Rightarrow> Inl e
         | Inr bins_dict \<Rightarrow> bins_in_order bins_dict [0..<length bins_dict])"

text \<open>The operators. Every one returns the position of the generator after its draws.\<close>

fun random_vector :: "rng \<Rightarrow> nat \<Rightarrow> nat \<Rightarrow> nat \<Rightarrow> error + int list \<times> nat" where
  "random_vector rnd n_items 0 pos = Inr ([], pos)"
| "random_vector rnd n_items (Suc k) pos =
     (case randint rnd 0 (int n_items - 1) pos of
        Inl e \<Rightarrow> Inl e
      | Inr (v, pos1) \<Rightarrow>
          (case random_vector rnd n_items k pos1 of
             Inl e \<Rightarrow> Inl e
           | Inr (vs, pos2) \<Rightarrow> Inr (v # vs, pos2)))"

fun generate_population :: "rng \<Rightarrow> nat \<Rightarrow> nat \<Rightarrow> nat \<Rightarrow> error + int list list \<times> nat" where
  "generate_population rnd n_items 0 pos = Inr ([], pos)"
| "generate_population rnd n_items (Suc k) pos =
     (case random_vector rnd n_items n_items pos of
        Inl e \<Rightarrow> Inl e
      | Inr (v, pos1) \<Rightarrow>
          (case generate_population rnd n_items k pos1 of
             Inl e \<Rightarrow> Inl e
           | Inr (vs, pos2) \<Rightarrow> Inr (v # vs, pos2)))"

definition selection :: "rng \<Rightarrow> int list list \<Rightarrow> int list \<Rightarrow> int \<Rightarrow> nat \<Rightarrow> nat
    \<Rightarrow> error + int list \<times> nat" where
  "selection rnd pop items capacidad k pos =
     (case sample rnd pop k pos of
        Inl e \<Rightarrow> Inl e
      | Inr (contenders, pos1) \<Rightarrow>
          (case min_key (\<lambda>s. fitness s items capacidad) contenders of
             Inl e \<Rightarrow> Inl e
           | Inr s \<Rightarrow> Inr (s, pos1)))"

definition crossover :: "rng \<Rightarrow> int list \<Rightarrow> int list \<Rightarrow> nat
    \<Rightarrow> error + (int list \<times> int list) \<times> nat" where
  "crossover rnd parent1 parent2 pos =
     (if length parent1 < 2 then Inr ((parent1, parent2), pos)
      else
        (case randint rnd 1 (int (length parent1) - 2) pos of
           Inl e \<Rightarrow> Inl e
         | Inr (point, pos1) \<Rightarrow>
             (let child1 = take (nat point) parent1 @ drop (nat point) parent2;
                  child2 = take (nat point) parent2 @ drop (nat point) parent1
              in Inr ((child1, child2), pos1))))"

definition mutate :: "rng \<Rightarrow> int list \<Rightarrow> rat \<Rightarrow> nat \<Rightarrow> error + int list \<times> nat" where
  "mutate rnd solution mutation_rate pos =
     (let r = random_float rnd pos
      in if fst r < mutation_rate
         then
           (case randint rnd 0 (int (length solution) - 1) (snd r) of
              Inl e \<Rightarrow> Inl e
            | Inr (idx, pos1) \<Rightarrow>
                (case randint rnd 0 (int (length solution) - 1) pos1 of
                   Inl e \<Rightarrow> Inl e
                 | Inr (v, pos2) \<Rightarrow> Inr (solution[nat idx := v], pos2)))
         else Inr (solution, snd r))"

text \<open>The reproduction loop \<open>while len(new_population) < population_size\<close>.\<close>

function reproduccion :: "rng \<Rightarrow> int list \<Rightarrow> int \<Rightarrow> nat \<Rightarrow> rat \<Rightarrow> int list list
    \<Rightarrow> int list list \<Rightarrow> nat \<Rightarrow> error + int list list \<times> nat" where
  "reproduccion rnd items capacidad population_size mutation_rate population new_population pos =
     (if length new_population < population_size
      then
        (case selection rnd population items capacidad 3 pos of
           Inl e \<Rightarrow> Inl e
         | Inr (p1, pos1) \<Rightarrow>
        (case selection rnd population items capacidad 3 pos1 of
           Inl e \<Rightarrow> Inl e
         | Inr (p2, pos2) \<Rightarrow>
        (case crossover rnd p1 p2 pos2 of
           Inl e \<Rightarrow> Inl e
         | Inr (cs, pos3) \<Rightarrow>
        (case mutate rnd (fst cs) mutation_rate pos3 of
           Inl e \<Rightarrow> Inl e
         | Inr (m1, pos4) \<Rightarrow>
             if length (new_population @ [m1]) < population_size
             then
               (case mutate rnd (snd cs) mutation_rate pos4 of
                  Inl e \<Rightarrow> Inl e
                | Inr (m2, pos5) \<Rightarrow>
                    reproduccion rnd items capacidad population_size mutation_rate population
                      (new_population @ [m1] @ [m2]) pos5)
             else
               reproduccion rnd items capacidad population_size mutation_rate population
                 (new_population @ [m1]) pos4))))
      else Inr (new_population, pos))"
  by pat_completeness auto
termination
  by (relation "measure (\<lambda>(rnd, items, capacidad, population_size, mutation_rate, population,
        new_population, pos). population_size - length new_population)") auto

declare reproduccion.simps [simp del]

text \<open>
  The state of the generation loop. \<open>len(set(v))\<close> is the number of distinct labels.
  \<open>generaciones\<close> runs the remaining iterations of \<open>for _ in range(generations)\<close>
  and returns at once when the body takes the \<open>break\<close>.
\<close>

record ga_state =
  population :: "int list list"
  best_overall :: "int list"
  best_bins_overall :: nat
  last_best_bins :: "nat option"
  gens_without_change :: nat
  history_bins :: "nat list"

definition update_best :: "int list \<Rightarrow> int \<Rightarrow> int list \<Rightarrow> nat \<Rightarrow> ga_state \<Rightarrow> error + ga_state" where
  "update_best items capacidad best_gen best_bins_gen st =
     (if best_bins_gen < best_bins_overall st
      then Inr (st\<lparr>best_overall := best_gen, best_bins_overall := best_bins_gen\<rparr>)
      else if best_bins_gen = best_bins_overall st
      then
        (case fitness best_gen items capacidad of
           Inl e \<Rightarrow> Inl e
         | Inr fg \<Rightarrow>
             (case fitness (best_overall st) items capacidad of
                Inl e \<Rightarrow> Inl e
              | Inr fo \<Rightarrow>
                  if fg < fo
                  then Inr (st\<lparr>best_overall := best_gen, best_bins_overall := best_bins_gen\<rparr>)
                  else Inr st))
      else Inr st)"

text \<open>
  The early-stopping block at the end of the loop body: the new state and whether
  the \<open>break\<close> is taken.
\<close>

definition early_stopping :: "nat \<Rightarrow> nat \<Rightarrow> ga_state \<Rightarrow> ga_state \<times> bool" where
  "early_stopping patience_no_change best_bins_gen st =
     (if last_best_bins st = None \<or> Some best_bins_gen \<noteq> last_best_bins st
      then (st\<lparr>gens_without_change := 0, last_best_bins := Some best_bins_gen\<rparr>, False)
      else
        (let st1 = st\<lparr>gens_without_change := gens_without_change st + 1\<rparr>
         in (st1, patience_no_change \<le> gens_without_change st1)))"

text \<open>One pass through the body of the generation loop.\<close>

definition generacion :: "rng \<Rightarrow> int list \<Rightarrow> int \<Rightarrow> nat \<Rightarrow> rat \<Rightarrow> nat \<Rightarrow> ga_state \<Rightarrow> nat
    \<Rightarrow> error + (ga_state \<times> bool) \<times> nat" where
  "generacion rnd items capacidad population_size mutation_rate patience_no_change st pos =
     (case min_key (\<lambda>s. fitness s items capacidad) (population st) of
        Inl e \<Rightarrow> Inl e
      | Inr elite \<Rightarrow>
     (case reproduccion rnd items capacidad population_size mutation_rate (population st)
             [elite] pos of
        Inl e \<Rightarrow> Inl e
      | Inr (new_population, pos1) \<Rightarrow>
     (case min_key (\<lambda>s. fitness s items capacidad) new_population of
        Inl e \<Rightarrow> Inl e
      | Inr best_gen \<Rightarrow>
          (let best_bins_gen = card (set best_gen);
               st1 = st\<lparr>population := new_population,
                        history_bins := history_bins st @ [best_bins_gen]\<rparr>
           in case update_best items capacidad best_gen best_bins_gen st1 of
                Inl e \<Rightarrow> Inl e
              | Inr st2 \<Rightarrow> Inr (early_stopping patience_no_change best_bins_gen st2, pos1)))))"

fun generaciones :: "rng \<Rightarrow> int list \<Rightarrow> int \<Rightarrow> nat \<Rightarrow> rat \<Rightarrow> nat \<Rightarrow> nat \<Rightarrow> ga_state \<Rightarrow> nat
    \<Rightarrow> error + ga_state \<times> nat" where
  "generaciones rnd items capacidad population_size mutation_rate patience_no_change 0 st pos =
     Inr (st, pos)"
| "generaciones rnd items capacidad population_size mutation_rate patience_no_change (Suc g) st pos =
     (case generacion rnd items capacidad population_size mutation_rate patience_no_change st pos of
        Inl e \<Rightarrow> Inl e
      | Inr (r, pos1) \<Rightarrow>
          if snd r then Inr (fst r, pos1)
          else generaciones rnd items capacidad population_size mutation_rate
                 patience_no_change g (fst r) pos1)"

definition genetic_algorithm_bpp :: "int list \<Rightarrow> int \<Rightarrow> nat \<Rightarrow> nat \<Rightarrow> rat \<Rightarrow> rng \<Rightarrow> nat
    \<Rightarrow> error + nat \<times> int list list \<times> int list \<times> nat list" where
  "genetic_algorithm_bpp items capacidad population_size generations mutation_rate rnd
     patience_no_change =
     (case generate_population rnd (length items) population_size 0 of
        Inl e \<Rightarrow> Inl e
      | Inr (population0, pos0) \<Rightarrow>
     (case min_key (\<lambda>s. fitness s items capacidad) population0 of
        Inl e \<Rightarrow> Inl e
      | Inr best0 \<Rightarrow>
     (case generaciones rnd items capacidad population_size mutation_rate patience_no_change
             generations
             \<lparr>population = population0, best_overall = best0,
              best_bins_overall = card (set best0), last_best_bins = None,
              gens_without_change = 0, history_bins = []\<rparr> pos0 of
        Inl e \<Rightarrow> Inl e
      | Inr (st, pos1) \<Rightarrow>
     (case min_key (\<lambda>s. fitness s items capacidad) (best_overall st # population st) of
        Inl e \<Rightarrow> Inl e
      | Inr best \<Rightarrow>
     (case decodificar_bins best items of
        Inl e \<Rightarrow> Inl e
      | Inr bins_list \<Rightarrow> Inr (length bins_list, bins_list, best, history_bins st))))))"

subsection \<open>What a packing must satisfy\<close>

definition feasible :: "int \<Rightarrow> int list list \<Rightarrow> bool" where
  "feasible capacidad cajas = list_all (\<lambda>caja. sum_list caja \<le> capacidad) cajas"

definition valid_packing :: "int \<Rightarrow> int list \<Rightarrow> int list list \<Rightarrow> bool" where
  "valid_packing capacidad items cajas \<longleftrightarrow>
     mset (concat cajas) = mset items \<and> feasible capacidad cajas"


text \<open>The invariant of the Best Fit scan: the chosen index, if any, is a bin that fits.\<close>

definition bf_inv :: "int \<Rightarrow> int \<Rightarrow> int list list \<Rightarrow> int \<times> int \<Rightarrow> bool" where
  "bf_inv C w cs st \<longleftrightarrow>
     fst st = - 1 \<or> (0 \<le> fst st \<and> nat (fst st) < length cs \<and> sum_list (cs ! nat (fst st)) + w \<le> C)"


subsection \<open>The search tree of the exact solver\<close>

text \<open>
  \<open>leaf C cajas resto hoja\<close>: \<open>hoja\<close> is a leaf of the unpruned search tree below the
  node with bins \<open>cajas\<close> and unplaced items \<open>resto\<close>: each item goes into an existing
  bin with room for it or into a new last bin. \<open>leaf_from\<close> are the leaves below the
  branches of the loop over existing bins from index \<open>i\<close> on.
\<close>

inductive leaf :: "int \<Rightarrow> int list list \<Rightarrow> int list \<Rightarrow> int list list \<Rightarrow> bool"
  for capacidad :: int where
  leaf_done: "leaf capacidad cajas [] cajas"
| leaf_into: "i < length cajas \<Longrightarrow> sum_list (cajas ! i) + w \<le> capacidad \<Longrightarrow>
     leaf capacidad (cajas[i := cajas ! i @ [w]]) resto hoja \<Longrightarrow>
     leaf capacidad cajas (w # resto) hoja"
| leaf_new: "leaf capacidad (cajas @ [[w]]) resto hoja \<Longrightarrow>
     leaf capacidad cajas (w # resto) hoja"

definition leaf_from :: "int \<Rightarrow> int list list \<Rightarrow> int \<Rightarrow> int list \<Rightarrow> nat \<Rightarrow> int list list \<Rightarrow> bool" where
  "leaf_from capacidad cajas w resto i hoja \<longleftrightarrow>
     (\<exists>j. i \<le> j \<and> j < length cajas \<and> sum_list (cajas ! j) + w \<le> capacidad \<and>
          leaf capacidad (cajas[j := cajas ! j @ [w]]) resto hoja)"

definition improves :: "(int list list \<Rightarrow> bool) \<Rightarrow> incumbent \<Rightarrow> incumbent \<Rightarrow> bool" where
  "improves L mejor r \<longleftrightarrow>
     r = mejor \<or> (fst r < fst mejor \<and> L (snd r) \<and> fst r = enat (length (snd r)))"

definition search_pre :: "int \<Rightarrow> int list list \<Rightarrow> int list \<Rightarrow> int \<Rightarrow> bool" where
  "search_pre capacidad cajas resto peso \<longleftrightarrow>
     0 < capacidad \<and> feasible capacidad cajas \<and> 0 \<le> sum_list (concat cajas) \<and>
     peso = sum_list resto \<and> (\<forall>w\<in>set resto. 0 \<le> w \<and> w \<le> capacidad)"

definition optimal_for :: "(int list list \<Rightarrow> bool) \<Rightarrow> incumbent \<Rightarrow> bool" where
  "optimal_for L r \<longleftrightarrow> (\<forall>Q. L Q \<longrightarrow> fst r \<le> enat (length Q))"

definition fits_in :: "int \<Rightarrow> int list list \<Rightarrow> int list \<Rightarrow> nat \<Rightarrow> bool" where
  "fits_in capacidad cajas resto m \<longleftrightarrow>
     (\<exists>R F. list_all2 (\<lambda>caja r. sum_list caja + sum_mset r \<le> capacidad) cajas R \<and>
            (\<forall>f\<in>set F. sum_mset f \<le> capacidad) \<and>
            length cajas + length F \<le> m \<and>
            mset resto = sum_list R + sum_list F)"

subsection \<open>What the genetic solver's dictionaries compute\<close>

text \<open>
  \<open>firsts\<close> lists the labels of an assignment vector in order of first appearance,
  \<open>label_items\<close> the items carrying one label, in item order. \<open>sums_of\<close>, \<open>bins_of\<close>
  and \<open>dict_of\<close> are the dictionaries of \<open>fitness\<close> and \<open>decodificar_bins\<close> written
  with them; \<open>wf_pop\<close> says that every individual has one label per item.
\<close>

definition firsts :: "int list \<Rightarrow> int list" where
  "firsts xs = rev (remdups (rev xs))"

definition label_items :: "int \<Rightarrow> int list \<Rightarrow> int list \<Rightarrow> int list" where
  "label_items l solution items = map snd (filter (\<lambda>p. fst p = l) (zip solution items))"

definition sums_of :: "int list \<Rightarrow> int list \<Rightarrow> (int \<times> int) list" where
  "sums_of solution items =
     map (\<lambda>l. (l, sum_list (label_items l solution items))) (firsts solution)"

definition bins_of :: "int list \<Rightarrow> int list \<Rightarrow> int list list" where
  "bins_of solution items = map (\<lambda>l. label_items l solution items) (firsts solution)"

definition dict_of :: "int list \<Rightarrow> int list \<Rightarrow> (nat \<times> int list) list" where
  "dict_of solution items = zip [0..<length (firsts solution)] (bins_of solution items)"

definition wf_pop :: "nat \<Rightarrow> int list list \<Rightarrow> bool" where
  "wf_pop n pop \<longleftrightarrow> (\<forall>v\<in>set pop. length v = n)"

text \<open>
  \<open>ga_inv\<close>: every individual of the population and the overall best have one label
  per item.
\<close>

definition ga_inv :: "nat \<Rightarrow> ga_state \<Rightarrow> bool" where
  "ga_inv n st \<longleftrightarrow> wf_pop n (population st) \<and> length (best_overall st) = n"

text \<open>
  From the words of the early-stopping rule: \<open>unchanged_run history\<close> is the number
  of most recent generations, counted back from the last, whose best bin count is
  identical to that of the generation before it. \<open>stop_inv\<close> ties the two loop
  variables of the code to the history.
\<close>

fun unchanged_rev :: "nat list \<Rightarrow> nat" where
  "unchanged_rev (x # y # rest) = (if x = y then Suc (unchanged_rev (y # rest)) else 0)"
| "unchanged_rev _ = 0"

definition unchanged_run :: "nat list \<Rightarrow> nat" where
  "unchanged_run history = unchanged_rev (rev history)"

definition stop_inv :: "ga_state \<Rightarrow> bool" where
  "stop_inv st \<longleftrightarrow>
     gens_without_change st = unchanged_run (history_bins st) \<and>
     last_best_bins st = (if history_bins st = [] then None else Some (last (history_bins st)))"
section \<open>Properties of the double division\<close>

lemma ceil_div_ceiling:
  "b \<noteq> 0 \<Longrightarrow> ceil_div a b = \<lceil>rat_of_int a / rat_of_int b\<rceil>"
  using floor_divide_of_int_eq[of "- a" b, where ?'a = rat]
  by (simp add: ceil_div_def ceiling_def)

lemma round_half_even_cases:
  "round_half_even x = \<lfloor>x\<rfloor> \<and> x - of_int \<lfloor>x\<rfloor> \<le> 1 / 2 \<or>
   round_half_even x = \<lfloor>x\<rfloor> + 1 \<and> 1 / 2 \<le> x - of_int \<lfloor>x\<rfloor>"
  by (simp add: round_half_even_def Let_def)

lemma round_half_even_bounds:
  "of_int (round_half_even x) \<le> x + 1 / 2" "x - 1 / 2 \<le> of_int (round_half_even x)"
proof -
  have f: "of_int \<lfloor>x\<rfloor> \<le> x" "x < of_int \<lfloor>x\<rfloor> + 1" by linarith+
  from round_half_even_cases[of x] show "of_int (round_half_even x) \<le> x + 1 / 2"
  proof
    assume "round_half_even x = \<lfloor>x\<rfloor> \<and> x - of_int \<lfloor>x\<rfloor> \<le> 1 / 2"
    then have "of_int (round_half_even x) = (of_int \<lfloor>x\<rfloor> :: rat)" by simp
    then show ?thesis using f by linarith
  next
    assume a: "round_half_even x = \<lfloor>x\<rfloor> + 1 \<and> 1 / 2 \<le> x - of_int \<lfloor>x\<rfloor>"
    then have "of_int (round_half_even x) = (of_int \<lfloor>x\<rfloor> :: rat) + 1" by simp
    then show ?thesis using a by linarith
  qed
  from round_half_even_cases[of x] show "x - 1 / 2 \<le> of_int (round_half_even x)"
  proof
    assume a: "round_half_even x = \<lfloor>x\<rfloor> \<and> x - of_int \<lfloor>x\<rfloor> \<le> 1 / 2"
    then have "of_int (round_half_even x) = (of_int \<lfloor>x\<rfloor> :: rat)" by simp
    then show ?thesis using a by linarith
  next
    assume a: "round_half_even x = \<lfloor>x\<rfloor> + 1 \<and> 1 / 2 \<le> x - of_int \<lfloor>x\<rfloor>"
    then have "of_int (round_half_even x) = (of_int \<lfloor>x\<rfloor> :: rat) + 1" by simp
    then show ?thesis using f by linarith
  qed
qed

lemma round_half_even_le_int:
  assumes "x \<le> of_int n"
  shows "round_half_even x \<le> n"
proof -
  have fl: "\<lfloor>x\<rfloor> \<le> n" using assms by (simp add: floor_le_iff)
  show ?thesis
  proof (cases "\<lfloor>x\<rfloor> = n")
    case True
    then have "x = of_int n" using assms by (metis of_int_floor_le order_antisym)
    then show ?thesis by (simp add: round_half_even_def)
  next
    case False
    then have "\<lfloor>x\<rfloor> + 1 \<le> n" using fl by simp
    moreover have "round_half_even x \<le> \<lfloor>x\<rfloor> + 1"
      using round_half_even_cases[of x] by auto
    ultimately show ?thesis by simp
  qed
qed



lemma bitlen_powi:
  assumes "0 < a"
  shows "(2::rat) powi (bitlen a - 1) \<le> of_int a" "of_int a < (2::rat) powi (bitlen a)"
proof -
  have b: "2 ^ nat (bitlen a - 1) \<le> a" "a < 2 ^ nat (bitlen a)"
    using bitlen_bounds[OF assms] by simp_all
  have ge: "1 \<le> bitlen a" using assms by (simp add: bitlen_alt_def)
  have "(2::rat) powi (bitlen a - 1) = of_int (2 ^ nat (bitlen a - 1))"
    using ge by (simp add: power_int_def)
  also have "\<dots> \<le> of_int a" using b(1) by (simp only: of_int_le_iff)
  finally show "(2::rat) powi (bitlen a - 1) \<le> of_int a" .
  have "(of_int a :: rat) < of_int (2 ^ nat (bitlen a))" using b(2) by (simp only: of_int_less_iff)
  also have "\<dots> = (2::rat) powi (bitlen a)" using ge by (simp add: power_int_def)
  finally show "of_int a < (2::rat) powi (bitlen a)" .
qed

lemma binade_bounds:
  assumes "0 < a" "0 < b"
  shows "(2::rat) powi (binade a b) \<le> of_int a / of_int b"
    and "of_int a / of_int b < (2::rat) powi (binade a b + 1)"
proof -
  let ?e = "bitlen a - bitlen b"
  have bpos: "(0::rat) < of_int b" using assms(2) by simp
  have lo: "(2::rat) powi (?e - 1) * of_int b \<le> of_int a"
  proof -
    have "(2::rat) powi (?e - 1) * of_int b \<le> 2 powi (?e - 1) * 2 powi (bitlen b)"
      using bitlen_powi(2)[OF assms(2)] by (intro mult_left_mono) simp_all
    also have "\<dots> = 2 powi (bitlen a - 1)"
      by (simp add: power_int_add[symmetric])
    also have "\<dots> \<le> of_int a" using bitlen_powi(1)[OF assms(1)] .
    finally show ?thesis .
  qed
  have hi: "of_int a < (2::rat) powi (?e + 1) * of_int b"
  proof -
    have "of_int a < (2::rat) powi (bitlen a)" using bitlen_powi(2)[OF assms(1)] .
    also have "\<dots> = 2 powi (?e + 1) * 2 powi (bitlen b - 1)"
      by (simp add: power_int_add[symmetric])
    also have "\<dots> \<le> 2 powi (?e + 1) * of_int b"
      using bitlen_powi(1)[OF assms(2)] by (intro mult_left_mono) simp_all
    finally show ?thesis .
  qed
  show "(2::rat) powi (binade a b) \<le> of_int a / of_int b"
    using lo bpos by (auto simp: binade_def Let_def pos_le_divide_eq)
  show "of_int a / of_int b < (2::rat) powi (binade a b + 1)"
    using hi bpos by (auto simp: binade_def Let_def pos_divide_less_eq not_le)
qed

lemma powi_le_imp_le:
  assumes "(2::rat) powi m \<le> 2 powi n"
  shows "m \<le> n"
proof (rule ccontr)
  assume "\<not> m \<le> n"
  then have "n < m" by simp
  then have "(2::rat) powi n < 2 powi m" by (rule power_int_strict_increasing) simp
  then show False using assms by simp
qed

lemma powi_less_imp_less:
  assumes "(2::rat) powi m < 2 powi n"
  shows "m < n"
proof (rule ccontr)
  assume "\<not> m < n"
  then have "n \<le> m" by simp
  then have "(2::rat) powi n \<le> 2 powi m" by (rule power_int_increasing) simp
  then show False using assms by simp
qed

lemma nearest_double_le_ceiling:
  assumes "0 < a" "0 < b" "a < 2 ^ 53 * b"
  shows "nearest_double a b \<le> of_int \<lceil>rat_of_int a / rat_of_int b\<rceil>"
proof -
  let ?q = "rat_of_int a / rat_of_int b"
  let ?e = "binade a b"
  let ?k = "max ?e (- 1022)"
  let ?c = "\<lceil>?q\<rceil>"
  have bpos: "(0::rat) < of_int b" using assms(2) by simp
  have lo: "(2::rat) powi ?e \<le> ?q"
    using binade_bounds[OF assms(1,2)] by simp
  have "rat_of_int a < of_int (2 ^ 53 * b)" using assms(3) by (simp only: of_int_less_iff)
  then have qlt: "?q < 2 ^ 53" using bpos by (simp add: pos_divide_less_eq)
  have "(2::rat) powi ?e < 2 powi 53" using lo qlt by simp
  then have "?e < 53" by (rule powi_less_imp_less)
  then have k: "?k \<le> 52" by simp
  define N :: int where "N = 2 ^ nat (52 - ?k)"
  have Npos: "0 < N" by (simp add: N_def)
  have ulp: "(2::rat) powi (?k - 52) = 1 / of_int N"
  proof -
    have "?k - 52 = - (52 - ?k)" by simp
    then have "(2::rat) powi (?k - 52) = 1 / 2 powi (52 - ?k)"
      by (simp only: power_int_minus_divide)
    also have "(2::rat) powi (52 - ?k) = of_int N"
      using k by (simp add: N_def power_int_def)
    finally show ?thesis .
  qed
  have nd: "nearest_double a b = of_int (round_half_even (?q * of_int N)) / of_int N"
    unfolding nearest_double_def Let_def ulp by simp
  have "?q \<le> of_int ?c" by (rule le_of_int_ceiling)
  then have "?q * of_int N \<le> of_int ?c * of_int N"
    using Npos by (intro mult_right_mono) simp_all
  then have "?q * of_int N \<le> of_int (?c * N)" by (simp only: of_int_mult)
  then have "round_half_even (?q * of_int N) \<le> ?c * N" by (rule round_half_even_le_int)
  then have "rat_of_int (round_half_even (?q * of_int N)) \<le> of_int (?c * N)"
    by (simp only: of_int_le_iff)
  then show ?thesis using Npos by (simp add: nd divide_le_eq)
qed





lemma nearest_double_small:
  assumes "0 < a" "0 < b" "a < 2 ^ 1023 * b"
  shows "nearest_double a b < 2 ^ 1024"
proof -
  let ?q = "rat_of_int a / rat_of_int b"
  let ?e = "binade a b"
  have bpos: "(0::rat) < of_int b" using assms(2) by simp
  have lo: "(2::rat) powi ?e \<le> ?q"
    using binade_bounds[OF assms(1,2)] by simp
  have "rat_of_int a < of_int (2 ^ 1023 * b)" using assms(3) by (simp only: of_int_less_iff)
  then have qlt: "?q < 2 ^ 1023" using bpos by (simp add: pos_divide_less_eq)
  let ?u = "(2::rat) powi (max ?e (- 1022) - 52)"
  have upos: "0 < ?u" by simp
  have u_le: "?u \<le> 2 ^ 1023"
  proof -
    have "(2::rat) powi ?e < 2 powi 1023" using lo qlt by simp
    then have "?e < 1023" by (rule powi_less_imp_less)
    then have "max ?e (- 1022) - 52 \<le> 1023" by simp
    then have "?u \<le> 2 powi 1023" by (intro power_int_increasing) simp_all
    then show ?thesis by simp
  qed
  have "rat_of_int (round_half_even (?q / ?u)) \<le> ?q / ?u + 1 / 2"
    by (rule round_half_even_bounds(1))
  then have "rat_of_int (round_half_even (?q / ?u)) * ?u \<le> (?q / ?u + 1 / 2) * ?u"
    using upos by (intro mult_right_mono) simp_all
  also have "\<dots> = ?q + ?u / 2" using upos by (simp add: field_simps)
  also have "\<dots> < 2 ^ 1023 + 2 ^ 1023" using qlt u_le upos by linarith
  also have "\<dots> = (2::rat) ^ 1024" by simp
  finally show ?thesis by (simp add: nearest_double_def Let_def)
qed

lemma true_div_no_overflow:
  assumes "0 \<le> a" "0 < b" "a < 2 ^ 1023 * b"
  shows "true_div a b \<noteq> Inl OverflowError"
proof (cases "a = 0")
  case True
  then show ?thesis using assms(2) by (simp add: true_div_def)
next
  case False
  then have a: "0 < a" using assms(1) by simp
  have "nearest_double a b < 2 ^ 1024" using a assms(2,3) by (rule nearest_double_small)
  then show ?thesis using a assms(2) by (simp add: true_div_def Let_def)
qed

lemma true_div_no_overflow_count:
  assumes "0 \<le> a" "0 < b" "a \<le> k * b" "k \<le> sys_maxsize"
  shows "true_div a b \<noteq> Inl OverflowError"
proof -
  have "k < 2 ^ 1023" using assms(4) by (simp add: sys_maxsize_def)
  then have "k * b < 2 ^ 1023 * b" using assms(2) by (rule mult_strict_right_mono)
  then have "a < 2 ^ 1023 * b" using assms(3) by linarith
  with assms(1,2) show ?thesis by (rule true_div_no_overflow)
qed

lemma math_ceil_div_le:
  assumes "0 < a" "0 < b" "a < 2 ^ 53 * b"
  shows "\<exists>m. math_ceil_div a b = Inr m \<and> m \<le> ceil_div a b"
proof -
  let ?c = "\<lceil>rat_of_int a / rat_of_int b\<rceil>"
  have le: "nearest_double a b \<le> of_int ?c"
    using assms by (rule nearest_double_le_ceiling)
  then have m: "\<lceil>nearest_double a b\<rceil> \<le> ?c" by (simp add: ceiling_le_iff)
  have "(2::int) ^ 53 * b < 2 ^ 1023 * b"
    using assms(2) by (intro mult_strict_right_mono) simp_all
  then have "a < 2 ^ 1023 * b" using assms(3) by linarith
  with assms(1,2) have "nearest_double a b < 2 ^ 1024" by (rule nearest_double_small)
  then have "math_ceil_div a b = Inr \<lceil>nearest_double a b\<rceil>"
    using assms(1,2) by (simp add: math_ceil_div_def true_div_def Let_def)
  then show ?thesis using m assms(2) by (simp add: ceil_div_ceiling)
qed


section \<open>Properties of the greedy packers\<close>

lemma feasible_append [simp]:
  "feasible C (xs @ ys) \<longleftrightarrow> feasible C xs \<and> feasible C ys"
  by (simp add: feasible_def)

lemma feasible_Cons [simp]:
  "feasible C (x # xs) \<longleftrightarrow> sum_list x \<le> C \<and> feasible C xs"
  by (simp add: feasible_def)

lemma feasible_Nil [simp]: "feasible C []"
  by (simp add: feasible_def)

lemma feasible_nth: "feasible C cs \<Longrightarrow> i < length cs \<Longrightarrow> sum_list (cs ! i) \<le> C"
  by (simp add: feasible_def list_all_length)

lemma feasible_update:
  "feasible C cs \<Longrightarrow> sum_list b \<le> C \<Longrightarrow> feasible C (cs[i := b])"
  unfolding feasible_def list_all_iff by (auto dest!: subsetD[OF set_update_subset_insert])

lemma mset_concat_update:
  "i < length cs \<Longrightarrow> mset (concat (cs[i := cs ! i @ [w]])) = add_mset w (mset (concat cs))"
proof (induction cs arbitrary: i)
  case Nil
  then show ?case by simp
next
  case (Cons c cs)
  then show ?case by (cases i) simp_all
qed

lemma sum_concat_le:
  "feasible C cs \<Longrightarrow> sum_list (concat cs) \<le> C * int (length cs)"
proof (induction cs)
  case Nil
  then show ?case by simp
next
  case (Cons c cs)
  then show ?case by (simp add: algebra_simps)
qed

lemma ceil_div_le:
  assumes "0 < C" and "s \<le> C * k"
  shows "ceil_div s C \<le> k"
proof -
  have "- (C * k) \<le> - s" using assms by simp
  then have "(- (C * k)) div C \<le> (- s) div C"
    using assms(1) by (intro zdiv_mono1) simp_all
  moreover have "(- (C * k)) div C = - k"
    using assms(1) by (metis mult_minus_right nonzero_mult_div_cancel_left less_irrefl)
  ultimately show ?thesis by (simp add: ceil_div_def)
qed


subsection \<open>next fit\<close>

lemma next_fit_place_nonempty: "next_fit_place C cs w \<noteq> []"
  by (simp add: next_fit_place_def)

lemma next_fit_place_mset:
  "cs \<noteq> [] \<Longrightarrow> mset (concat (next_fit_place C cs w)) = add_mset w (mset (concat cs))"
proof -
  assume ne: "cs \<noteq> []"
  then have "concat cs = concat (butlast cs) @ last cs"
    by (metis append_butlast_last_id concat_append concat.simps append_Nil2)
  then show ?thesis by (simp add: next_fit_place_def)
qed

lemma next_fit_place_feasible:
  assumes "cs \<noteq> []" "feasible C cs" "w \<le> C"
  shows "feasible C (next_fit_place C cs w)"
proof -
  have "feasible C (butlast cs @ [last cs])" using assms by simp
  then have "feasible C (butlast cs)" by simp
  then show ?thesis using assms by (simp add: next_fit_place_def)
qed

lemma next_fit_fold:
  "cs \<noteq> [] \<Longrightarrow>
   foldl (next_fit_place C) cs ws \<noteq> [] \<and>
   mset (concat (foldl (next_fit_place C) cs ws)) = mset (concat cs) + mset ws \<and>
   (feasible C cs \<longrightarrow> (\<forall>w\<in>set ws. w \<le> C) \<longrightarrow> feasible C (foldl (next_fit_place C) cs ws))"
proof (induction ws arbitrary: cs)
  case Nil
  then show ?case by simp
next
  case (Cons w ws)
  have ne: "next_fit_place C cs w \<noteq> []" by (rule next_fit_place_nonempty)
  show ?case
    using Cons.IH[OF ne] Cons.prems
    by (simp add: next_fit_place_mset next_fit_place_feasible)
qed

lemma next_fit_valid:
  "\<forall>w\<in>set xs. w \<le> C \<Longrightarrow> valid_packing C xs (snd (next_fit C xs))"
  using next_fit_fold[of "[[hd xs]]" C "tl xs"]
  by (cases xs) (simp_all add: next_fit_def valid_packing_def Let_def)



subsection \<open>first fit\<close>

lemma first_fit_scan_Some:
  "first_fit_scan C w cs = Some cs' \<Longrightarrow>
   mset (concat cs') = add_mset w (mset (concat cs)) \<and>
   (feasible C cs \<longrightarrow> feasible C cs')"
proof (induction cs arbitrary: cs')
  case Nil
  then show ?case by simp
next
  case (Cons c cs)
  then show ?case by (auto split: if_splits)
qed

lemma first_fit_place_mset:
  "mset (concat (first_fit_place C cs w)) = add_mset w (mset (concat cs))"
  by (auto simp: first_fit_place_def split: option.splits dest: first_fit_scan_Some)

lemma first_fit_place_feasible:
  "feasible C cs \<Longrightarrow> w \<le> C \<Longrightarrow> feasible C (first_fit_place C cs w)"
  by (auto simp: first_fit_place_def split: option.splits dest: first_fit_scan_Some)

lemma first_fit_fold:
  "mset (concat (foldl (first_fit_place C) cs ws)) = mset (concat cs) + mset ws \<and>
   (feasible C cs \<longrightarrow> (\<forall>w\<in>set ws. w \<le> C) \<longrightarrow> feasible C (foldl (first_fit_place C) cs ws))"
  by (induction ws arbitrary: cs) (simp_all add: first_fit_place_mset first_fit_place_feasible)


lemma first_fit_valid:
  "\<forall>w\<in>set xs. w \<le> C \<Longrightarrow> valid_packing C xs (snd (first_fit C xs))"
  using first_fit_fold[of C "[]" xs] by (simp add: first_fit_def valid_packing_def Let_def)


subsection \<open>best fit\<close>

lemma best_fit_scan_inv_aux:
  "bf_inv C w (pre @ cs) st \<Longrightarrow> n = length pre \<Longrightarrow>
   bf_inv C w (pre @ cs) (foldl (best_fit_step C w) st (List.enumerate n cs))"
proof (induction cs arbitrary: pre n st)
  case Nil
  then show ?case by simp
next
  case (Cons c cs)
  have step: "bf_inv C w (pre @ c # cs) (best_fit_step C w st (n, c))"
    using Cons.prems by (auto simp: bf_inv_def best_fit_step_def Let_def nth_append)
  have "bf_inv C w ((pre @ [c]) @ cs)
          (foldl (best_fit_step C w) (best_fit_step C w st (n, c)) (List.enumerate (Suc n) cs))"
    by (rule Cons.IH) (use step Cons.prems in simp_all)
  then show ?case by simp
qed

lemma best_fit_scan_inv: "bf_inv C w cs (best_fit_scan C w cs)"
  using best_fit_scan_inv_aux[of C w "[]" cs "(- 1, C + 1)" 0]
  by (simp add: best_fit_scan_def bf_inv_def)

lemma best_fit_place_mset:
  "mset (concat (best_fit_place C cs w)) = add_mset w (mset (concat cs))"
  using best_fit_scan_inv[of C w cs]
  by (auto simp: best_fit_place_def Let_def bf_inv_def mset_concat_update)

lemma best_fit_place_feasible:
  "feasible C cs \<Longrightarrow> w \<le> C \<Longrightarrow> feasible C (best_fit_place C cs w)"
  using best_fit_scan_inv[of C w cs]
  by (auto simp: best_fit_place_def Let_def bf_inv_def intro!: feasible_update)

lemma best_fit_fold:
  "mset (concat (foldl (best_fit_place C) cs ws)) = mset (concat cs) + mset ws \<and>
   (feasible C cs \<longrightarrow> (\<forall>w\<in>set ws. w \<le> C) \<longrightarrow> feasible C (foldl (best_fit_place C) cs ws))"
  by (induction ws arbitrary: cs) (simp_all add: best_fit_place_mset best_fit_place_feasible)


lemma best_fit_valid:
  "\<forall>w\<in>set xs. w \<le> C \<Longrightarrow> valid_packing C xs (snd (best_fit C xs))"
  using best_fit_fold[of C "[]" xs] by (simp add: best_fit_def valid_packing_def Let_def)


subsection \<open>decreasing variants\<close>

lemma mset_sorted_reverse [simp]: "mset (sorted_reverse xs) = mset xs"
  by (simp add: sorted_reverse_def)

lemma set_sorted_reverse [simp]: "set (sorted_reverse xs) = set xs"
  by (simp add: sorted_reverse_def)

lemma sorted_reverse_id:
  "sorted (map (\<lambda>x. - x) xs) \<Longrightarrow> sorted_reverse xs = xs"
  unfolding sorted_reverse_def by (rule sort_key_id_if_sorted)

section \<open>Properties of the exact solver\<close>

inductive_cases leaf_NilE: "leaf C cajas [] hoja"

inductive_cases leaf_ConsE: "leaf C cajas (w # resto) hoja"

lemma improves_refl: "improves L m m"
  by (simp add: improves_def)

lemma improves_le: "improves L m r \<Longrightarrow> fst r \<le> fst m"
  by (auto simp: improves_def)

lemma improves_trans:
  assumes "improves L1 m r1" "improves L2 r1 r2"
    and "\<And>Q. L1 Q \<Longrightarrow> L Q" "\<And>Q. L2 Q \<Longrightarrow> L Q"
  shows "improves L m r2"
  using assms unfolding improves_def by (auto intro: less_trans)

lemma leaf_from_leaf: "leaf_from C cajas w resto i Q \<Longrightarrow> leaf C cajas (w # resto) Q"
  by (auto simp: leaf_from_def intro: leaf_into)

lemma leaf_from_Suc: "leaf_from C cajas w resto (Suc i) Q \<Longrightarrow> leaf_from C cajas w resto i Q"
  by (auto simp: leaf_from_def intro: Suc_leD)

lemma leaf_from_here:
  "i < length cajas \<Longrightarrow> sum_list (cajas ! i) + w \<le> C \<Longrightarrow>
   leaf C (cajas[i := cajas ! i @ [w]]) resto Q \<Longrightarrow> leaf_from C cajas w resto i Q"
  by (auto simp: leaf_from_def)

lemma leaf_from_cases:
  assumes "leaf_from C cajas w resto i Q"
  shows "(i < length cajas \<and> sum_list (cajas ! i) + w \<le> C \<and>
            leaf C (cajas[i := cajas ! i @ [w]]) resto Q)
         \<or> leaf_from C cajas w resto (Suc i) Q"
proof -
  from assms obtain j where j: "i \<le> j" "j < length cajas" "sum_list (cajas ! j) + w \<le> C"
    "leaf C (cajas[j := cajas ! j @ [w]]) resto Q"
    by (auto simp: leaf_from_def)
  show ?thesis
  proof (cases "j = i")
    case True
    with j show ?thesis by simp
  next
    case False
    with j have "Suc i \<le> j" by simp
    with j show ?thesis by (auto simp: leaf_from_def)
  qed
qed

lemma bb_sound:
  "improves (leaf C cajas items) mejor (branch_and_bound C items cajas peso mejor)"
  "improves (leaf_from C cajas' w resto i) mejor' (bb_for C w resto cajas' peso' i mejor')"
proof (induction C items cajas peso mejor and C w resto cajas' peso' i mejor'
       rule: branch_and_bound_bb_for.induct)
  case (1 C cajas peso mejor)
  show ?case
    by (auto simp: improves_def Let_def intro: leaf_done)
next
  case (2 C w resto cajas peso mejor)
  let ?lb = "calcular_lower_bound C (length cajas) peso"
  show ?case
  proof (cases "fst mejor \<le> enat (nat ?lb)")
    case True
    then show ?thesis by (simp add: improves_refl)
  next
    case False
    let ?m1 = "bb_for C w resto cajas (peso - w) 0 mejor"
    have h1: "improves (leaf_from C cajas w resto 0) mejor ?m1"
      using "2.IH"(1)[OF refl False refl] .
    show ?thesis
    proof (cases "enat (length cajas) < fst ?m1 - 1")
      case True
      have h2: "improves (leaf C (cajas @ [[w]]) resto) ?m1
                  (branch_and_bound C resto (cajas @ [[w]]) (peso - w) ?m1)"
        using "2.IH"(2)[OF refl False refl refl True] .
      have "improves (leaf C cajas (w # resto)) mejor
              (branch_and_bound C resto (cajas @ [[w]]) (peso - w) ?m1)"
        by (rule improves_trans[OF h1 h2]) (auto intro: leaf_from_leaf leaf_new)
      then show ?thesis using False True by (simp add: Let_def)
    next
      case nonew: False
      have "improves (leaf C cajas (w # resto)) mejor ?m1"
        by (rule improves_trans[OF h1 improves_refl]) (auto intro: leaf_from_leaf)
      then show ?thesis using False nonew by (simp add: Let_def)
    qed
  qed
next
  case (3 C w resto cajas peso i mejor)
  show ?case
  proof (cases "i < length cajas")
    case False
    then show ?thesis by (simp add: improves_refl)
  next
    case True
    let ?m' = "if sum_list (cajas ! i) + w \<le> C
               then branch_and_bound C resto (cajas[i := cajas ! i @ [w]]) peso mejor
               else mejor"
    have h1: "improves (leaf_from C cajas w resto i) mejor ?m'"
    proof (cases "sum_list (cajas ! i) + w \<le> C")
      case fits: True
      have "improves (leaf C (cajas[i := cajas ! i @ [w]]) resto) mejor ?m'"
        using "3.IH"(1)[OF True fits] fits by simp
      then show ?thesis
        by (rule improves_trans[OF _ improves_refl]) (auto intro: leaf_from_here True fits)
    next
      case False
      then show ?thesis by (simp add: improves_refl)
    qed
    have h2: "improves (leaf_from C cajas w resto (Suc i)) ?m'
                (bb_for C w resto cajas peso (Suc i) ?m')"
      using "3.IH"(2)[OF True] .
    have "improves (leaf_from C cajas w resto i) mejor (bb_for C w resto cajas peso (Suc i) ?m')"
      by (rule improves_trans[OF h1 h2]) (auto intro: leaf_from_Suc)
    then show ?thesis using True by simp
  qed
qed

lemma leaf_length: "leaf C cajas items Q \<Longrightarrow> length cajas \<le> length Q"
  by (induction rule: leaf.induct) simp_all

lemma leaf_mset:
  "leaf C cajas items Q \<Longrightarrow> mset (concat Q) = mset (concat cajas) + mset items"
  by (induction rule: leaf.induct) (simp_all add: mset_concat_update)

lemma leaf_feasible:
  "leaf C cajas items Q \<Longrightarrow> feasible C cajas \<Longrightarrow> \<forall>w\<in>set items. w \<le> C \<Longrightarrow> feasible C Q"
proof (induction rule: leaf.induct)
  case (leaf_done cajas)
  then show ?case by simp
next
  case (leaf_into i cajas w resto hoja)
  then show ?case by (simp add: feasible_update)
next
  case (leaf_new cajas w resto hoja)
  then show ?case by simp
qed

lemma leaf_exists: "\<exists>Q. leaf C cajas items Q"
proof (induction items arbitrary: cajas)
  case Nil
  show ?case by (blast intro: leaf_done)
next
  case (Cons w items)
  then show ?case by (blast intro: leaf_new)
qed

lemma search_pre_bound:
  assumes "search_pre C cajas items peso" "leaf C cajas items Q"
  shows "calcular_lower_bound C (length cajas) peso \<le> int (length Q)"
proof -
  have pos: "0 < C" and feas: "feasible C cajas" and nn: "0 \<le> sum_list (concat cajas)"
    and peso: "peso = sum_list items" and fit: "\<forall>w\<in>set items. w \<le> C"
    using assms(1) by (auto simp: search_pre_def)
  have "feasible C Q" using leaf_feasible[OF assms(2) feas fit] .
  then have le: "sum_list (concat Q) \<le> C * int (length Q)" by (rule sum_concat_le)
  have "sum_list (concat Q) = sum_list (concat cajas) + sum_list items"
    using leaf_mset[OF assms(2)] by (metis sum_mset_sum_list sum_mset.union)
  then have "peso \<le> C * int (length Q)" using le nn peso by simp
  then have "ceil_div peso C \<le> int (length Q)" using pos by (rule ceil_div_le[rotated])
  moreover have "int (length cajas) \<le> int (length Q)" using leaf_length[OF assms(2)] by simp
  ultimately show ?thesis by (simp add: calcular_lower_bound_def)
qed

lemma search_pre_into:
  assumes "search_pre C cajas (w # resto) peso" "i < length cajas" "sum_list (cajas ! i) + w \<le> C"
  shows "search_pre C (cajas[i := cajas ! i @ [w]]) resto (peso - w)"
proof -
  have "sum_list (concat (cajas[i := cajas ! i @ [w]])) = sum_list (concat cajas) + w"
    using mset_concat_update[OF assms(2), of w]
    by (metis sum_mset_sum_list sum_mset.add_mset add.commute)
  then show ?thesis using assms by (auto simp: search_pre_def intro: feasible_update)
qed

lemma search_pre_new:
  assumes "search_pre C cajas (w # resto) peso"
  shows "search_pre C (cajas @ [[w]]) resto (peso - w)"
  using assms by (auto simp: search_pre_def)

lemma no_new_bin_bound:
  assumes "\<not> enat n < b - 1"
  shows "b \<le> enat (Suc n)"
proof (cases b)
  case (enat m)
  then show ?thesis using assms by (simp add: one_enat_def)
next
  case infinity
  then show ?thesis using assms by simp
qed

lemma leaf_Cons_cases:
  "leaf C cajas (w # resto) Q \<Longrightarrow>
   leaf_from C cajas w resto 0 Q \<or> leaf C (cajas @ [[w]]) resto Q"
  by (auto elim!: leaf_ConsE simp: leaf_from_def)

lemma bb_complete:
  "search_pre C cajas items peso \<Longrightarrow>
     optimal_for (leaf C cajas items) (branch_and_bound C items cajas peso mejor)"
  "search_pre C cajas' (w # resto) (peso' + w) \<Longrightarrow>
     optimal_for (leaf_from C cajas' w resto i) (bb_for C w resto cajas' peso' i mejor')"
proof (induction C items cajas peso mejor and C w resto cajas' peso' i mejor'
       rule: branch_and_bound_bb_for.induct)
  case (1 C cajas peso mejor)
  show ?case
    by (auto simp: optimal_for_def Let_def elim!: leaf_NilE)
next
  case (2 C w resto cajas peso mejor)
  let ?lb = "calcular_lower_bound C (length cajas) peso"
  note pre = "2.prems"
  show ?case
  proof (cases "fst mejor \<le> enat (nat ?lb)")
    case True
    have "fst mejor \<le> enat (length Q)" if "leaf C cajas (w # resto) Q" for Q
    proof -
      have "?lb \<le> int (length Q)" using search_pre_bound[OF pre that] .
      then have "enat (nat ?lb) \<le> enat (length Q)" by simp
      with True show ?thesis by (rule order_trans)
    qed
    then show ?thesis using True by (simp add: optimal_for_def)
  next
    case False
    let ?m1 = "bb_for C w resto cajas (peso - w) 0 mejor"
    have pre1: "search_pre C cajas (w # resto) (peso - w + w)" using pre by simp
    have h1: "optimal_for (leaf_from C cajas w resto 0) ?m1"
      using "2.IH"(1)[OF refl False refl pre1] .
    show ?thesis
    proof (cases "enat (length cajas) < fst ?m1 - 1")
      case True
      let ?r = "branch_and_bound C resto (cajas @ [[w]]) (peso - w) ?m1"
      have h2: "optimal_for (leaf C (cajas @ [[w]]) resto) ?r"
        using "2.IH"(2)[OF refl False refl refl True search_pre_new[OF pre]] .
      have le: "fst ?r \<le> fst ?m1" using bb_sound(1) by (rule improves_le)
      have "fst ?r \<le> enat (length Q)" if "leaf C cajas (w # resto) Q" for Q
        using leaf_Cons_cases[OF that]
      proof
        assume "leaf_from C cajas w resto 0 Q"
        then have "fst ?m1 \<le> enat (length Q)" using h1 by (simp add: optimal_for_def)
        with le show ?thesis by (rule order_trans)
      next
        assume "leaf C (cajas @ [[w]]) resto Q"
        then show ?thesis using h2 by (simp add: optimal_for_def)
      qed
      then show ?thesis using False True by (simp add: optimal_for_def Let_def)
    next
      case nonew: False
      have "fst ?m1 \<le> enat (length Q)" if "leaf C cajas (w # resto) Q" for Q
        using leaf_Cons_cases[OF that]
      proof
        assume "leaf_from C cajas w resto 0 Q"
        then show ?thesis using h1 by (simp add: optimal_for_def)
      next
        assume new: "leaf C (cajas @ [[w]]) resto Q"
        have "fst ?m1 \<le> enat (Suc (length cajas))" using nonew by (rule no_new_bin_bound)
        moreover have "Suc (length cajas) \<le> length Q" using leaf_length[OF new] by simp
        ultimately show ?thesis by (meson enat_ord_simps(1) order_trans)
      qed
      then show ?thesis using False nonew by (simp add: optimal_for_def Let_def)
    qed
  qed
next
  case (3 C w resto cajas peso i mejor)
  note pre = "3.prems"
  show ?case
  proof (cases "i < length cajas")
    case False
    then show ?thesis by (auto simp: optimal_for_def leaf_from_def)
  next
    case True
    let ?m' = "if sum_list (cajas ! i) + w \<le> C
               then branch_and_bound C resto (cajas[i := cajas ! i @ [w]]) peso mejor
               else mejor"
    let ?r = "bb_for C w resto cajas peso (Suc i) ?m'"
    have h2: "optimal_for (leaf_from C cajas w resto (Suc i)) ?r"
      using "3.IH"(2)[OF True pre] .
    have le: "fst ?r \<le> fst ?m'" using bb_sound(2) by (rule improves_le)
    have "fst ?r \<le> enat (length Q)" if "leaf_from C cajas w resto i Q" for Q
      using leaf_from_cases[OF that]
    proof
      assume here: "i < length cajas \<and> sum_list (cajas ! i) + w \<le> C \<and>
                    leaf C (cajas[i := cajas ! i @ [w]]) resto Q"
      then have fits: "sum_list (cajas ! i) + w \<le> C" by simp
      have "search_pre C (cajas[i := cajas ! i @ [w]]) resto (peso + w - w)"
        using search_pre_into[OF pre True fits] .
      then have "optimal_for (leaf C (cajas[i := cajas ! i @ [w]]) resto) ?m'"
        using "3.IH"(1)[OF True fits] fits by simp
      then have "fst ?m' \<le> enat (length Q)" using here by (simp add: optimal_for_def)
      with le show ?thesis by (rule order_trans)
    next
      assume "leaf_from C cajas w resto (Suc i) Q"
      then show ?thesis using h2 by (simp add: optimal_for_def)
    qed
    then show ?thesis using True by (simp add: optimal_for_def)
  qed
qed

lemma sum_list_update_mset:
  fixes R :: "'a multiset list"
  shows "j < length R \<Longrightarrow> w \<in># R ! j \<Longrightarrow>
         add_mset w (sum_list (R[j := R ! j - {#w#}])) = sum_list R"
proof (induction R arbitrary: j)
  case Nil
  then show ?case by simp
next
  case (Cons r R)
  then show ?case by (cases j) simp_all
qed

lemma in_sum_list_mset:
  fixes R :: "'a multiset list"
  shows "w \<in># sum_list R \<Longrightarrow> \<exists>j < length R. w \<in># R ! j"
  by (auto simp: in_set_conv_nth)

lemma in_sum_list_msetE:
  fixes R :: "'a multiset list"
  assumes "w \<in># sum_list R"
  obtains j where "j < length R" "w \<in># R ! j"
  using assms by (auto simp: in_set_conv_nth)

lemma in_sum_list_setE:
  fixes R :: "'a multiset list"
  assumes "w \<in># sum_list R"
  obtains f where "f \<in> set R" "w \<in># f"
  using assms by auto

lemma in_sum_list_nth:
  fixes R :: "'a multiset list"
  shows "j < length R \<Longrightarrow> x \<in># R ! j \<Longrightarrow> x \<in># sum_list R"
  by auto

lemma sum_mset_nonneg_int:
  fixes r :: "int multiset"
  shows "\<forall>x \<in># r. 0 \<le> x \<Longrightarrow> 0 \<le> sum_mset r"
  by (induction r) simp_all

lemma sum_mset_remove_le:
  fixes r :: "int multiset"
  assumes "w \<in># r" "\<forall>x \<in># r. 0 \<le> x"
  shows "w + sum_mset (r - {#w#}) = sum_mset r" "0 \<le> sum_mset (r - {#w#})"
proof -
  show "w + sum_mset (r - {#w#}) = sum_mset r"
    using assms(1) by (metis insert_DiffM sum_mset.add_mset)
  have "\<forall>x \<in># r - {#w#}. 0 \<le> x" using assms(2) by (meson in_diffD)
  then show "0 \<le> sum_mset (r - {#w#})" by (rule sum_mset_nonneg_int)
qed

lemma fits_in_length: "fits_in C cajas items m \<Longrightarrow> length cajas \<le> m"
  unfolding fits_in_def by (elim exE conjE) linarith

lemma fits_in_into:
  assumes al: "list_all2 (\<lambda>caja r. sum_list caja + sum_mset r \<le> C) cajas R"
    and fr: "\<forall>f\<in>set F. sum_mset f \<le> C"
    and len: "length cajas + length F \<le> m"
    and tot: "add_mset w (mset items) = sum_list R + sum_list F"
    and nn: "\<forall>x \<in># sum_list R. 0 \<le> x"
    and j: "j < length R" "w \<in># R ! j"
  shows "j < length cajas \<and> sum_list (cajas ! j) + w \<le> C \<and>
         fits_in C (cajas[j := cajas ! j @ [w]]) items m"
proof -
  have lenR: "length R = length cajas" using al by (simp add: list_all2_lengthD)
  have jc: "j < length cajas" using j lenR by simp
  have rnn: "\<forall>x \<in># R ! j. 0 \<le> x"
  proof
    fix x assume "x \<in># R ! j"
    then have "x \<in># sum_list R" using j(1) by (rule in_sum_list_nth[rotated])
    then show "0 \<le> x" using nn by blast
  qed
  have loadj: "sum_list (cajas ! j) + sum_mset (R ! j) \<le> C"
    using list_all2_nthD[OF al jc] by simp
  have fits: "sum_list (cajas ! j) + w \<le> C"
    using loadj sum_mset_remove_le[OF j(2) rnn] by linarith
  let ?R' = "R[j := R ! j - {#w#}]"
  let ?c' = "cajas[j := cajas ! j @ [w]]"
  have al': "list_all2 (\<lambda>caja r. sum_list caja + sum_mset r \<le> C) ?c' ?R'"
  proof (rule list_all2_update_cong[OF al])
    show "sum_list (cajas ! j @ [w]) + sum_mset (R ! j - {#w#}) \<le> C"
      using loadj sum_mset_remove_le(1)[OF j(2) rnn] by simp
  qed
  have "sum_list R = add_mset w (sum_list ?R')"
    using sum_list_update_mset[OF j] by simp
  then have "add_mset w (mset items) = add_mset w (sum_list ?R' + sum_list F)"
    using tot by simp
  then have tot': "mset items = sum_list ?R' + sum_list F" by simp
  have "length ?c' + length F \<le> m" using len by simp
  then have "fits_in C ?c' items m"
    unfolding fits_in_def using al' fr tot' by blast
  then show ?thesis using jc fits by simp
qed

lemma fits_in_new:
  assumes al: "list_all2 (\<lambda>caja r. sum_list caja + sum_mset r \<le> C) cajas R"
    and fr: "\<forall>f\<in>set F. sum_mset f \<le> C"
    and len: "length cajas + length F \<le> m"
    and tot: "add_mset w (mset items) = sum_list R + sum_list F"
    and nn: "\<forall>x \<in># sum_list F. 0 \<le> x"
    and f: "f \<in> set F" "w \<in># f"
  shows "fits_in C (cajas @ [[w]]) items m"
proof -
  obtain F1 F2 where F: "F = F1 @ f # F2"
    using f(1) by (meson split_list)
  have fnn: "\<forall>x \<in># f. 0 \<le> x"
  proof
    fix x assume "x \<in># f"
    then have "x \<in># sum_list F" using f(1) by auto
    then show "0 \<le> x" using nn by blast
  qed
  have fC: "sum_mset f \<le> C" using fr f(1) by simp
  let ?R' = "R @ [f - {#w#}]"
  let ?c' = "cajas @ [[w]]"
  let ?F' = "F1 @ F2"
  have "sum_list [w] + sum_mset (f - {#w#}) \<le> C"
    using fC sum_mset_remove_le(1)[OF f(2) fnn] by simp
  then have "list_all2 (\<lambda>caja r. sum_list caja + sum_mset r \<le> C) [[w]] [f - {#w#}]"
    by simp
  with al have al': "list_all2 (\<lambda>caja r. sum_list caja + sum_mset r \<le> C) ?c' ?R'"
    by (rule list_all2_appendI)
  have fr': "\<forall>f\<in>set ?F'. sum_mset f \<le> C" using fr unfolding F by simp
  have len': "length ?c' + length ?F' \<le> m" using len unfolding F by simp
  have "f = add_mset w (f - {#w#})" using f(2) by simp
  then have "sum_list F = add_mset w (sum_list [f - {#w#}] + sum_list ?F')"
    unfolding F by (simp add: ac_simps)
  then have "add_mset w (mset items) = add_mset w (sum_list ?R' + sum_list ?F')"
    using tot by (simp add: ac_simps)
  then have tot': "mset items = sum_list ?R' + sum_list ?F'" by simp
  show ?thesis
    unfolding fits_in_def using al' fr' len' tot' by blast
qed

lemma fits_in_step:
  assumes "fits_in C cajas (w # items) m" "\<forall>x\<in>set (w # items). 0 \<le> x"
  shows "(\<exists>j. j < length cajas \<and> sum_list (cajas ! j) + w \<le> C \<and>
              fits_in C (cajas[j := cajas ! j @ [w]]) items m)
         \<or> fits_in C (cajas @ [[w]]) items m"
proof -
  from assms(1) obtain R F where
    al: "list_all2 (\<lambda>caja r. sum_list caja + sum_mset r \<le> C) cajas R"
    and fr: "\<forall>f\<in>set F. sum_mset f \<le> C"
    and len: "length cajas + length F \<le> m"
    and tot0: "mset (w # items) = sum_list R + sum_list F"
    unfolding fits_in_def by blast
  have tot: "add_mset w (mset items) = sum_list R + sum_list F" using tot0 by simp
  have nn: "\<forall>x \<in># sum_list R + sum_list F. 0 \<le> x"
    using assms(2) unfolding tot0[symmetric] by simp
  have nnR: "\<forall>x \<in># sum_list R. 0 \<le> x" using nn by (metis union_iff)
  have nnF: "\<forall>x \<in># sum_list F. 0 \<le> x" using nn by (metis union_iff)
  have "w \<in># sum_list R + sum_list F" unfolding tot[symmetric] by simp
  then have "w \<in># sum_list R \<or> w \<in># sum_list F" by (simp only: union_iff)
  then show ?thesis
  proof (rule disjE)
    assume "w \<in># sum_list R"
    then obtain j where j: "j < length R" "w \<in># R ! j" by (rule in_sum_list_msetE)
    have "j < length cajas \<and> sum_list (cajas ! j) + w \<le> C \<and>
          fits_in C (cajas[j := cajas ! j @ [w]]) items m"
      using al fr len tot nnR j by (rule fits_in_into)
    then show ?thesis by blast
  next
    assume "w \<in># sum_list F"
    then obtain f where f: "f \<in> set F" "w \<in># f" by (rule in_sum_list_setE)
    have "fits_in C (cajas @ [[w]]) items m"
      using al fr len tot nnF f by (rule fits_in_new)
    then show ?thesis by blast
  qed
qed

lemma fits_in_leaf:
  "fits_in C cajas items m \<Longrightarrow> \<forall>w\<in>set items. 0 \<le> w \<Longrightarrow>
   \<exists>Q. leaf C cajas items Q \<and> length Q \<le> m"
proof (induction items arbitrary: cajas)
  case Nil
  from Nil.prems(1) have "length cajas \<le> m" by (rule fits_in_length)
  then show ?case by (blast intro: leaf_done)
next
  case (Cons w items)
  have items_nn: "\<forall>w\<in>set items. 0 \<le> w" using Cons.prems(2) by simp
  from fits_in_step[OF Cons.prems] show ?case
  proof (rule disjE)
    assume "\<exists>j. j < length cajas \<and> sum_list (cajas ! j) + w \<le> C \<and>
              fits_in C (cajas[j := cajas ! j @ [w]]) items m"
    then obtain j where j: "j < length cajas" "sum_list (cajas ! j) + w \<le> C"
      "fits_in C (cajas[j := cajas ! j @ [w]]) items m" by blast
    from Cons.IH[OF j(3) items_nn] obtain Q
      where "leaf C (cajas[j := cajas ! j @ [w]]) items Q" "length Q \<le> m" by blast
    then show ?case using leaf_into[OF j(1,2)] by blast
  next
    assume "fits_in C (cajas @ [[w]]) items m"
    from Cons.IH[OF this items_nn] obtain Q
      where "leaf C (cajas @ [[w]]) items Q" "length Q \<le> m" by blast
    then show ?case using leaf_new by blast
  qed
qed

lemma valid_packing_fits_in:
  assumes "valid_packing C items P"
  shows "fits_in C [] items (length P)"
proof -
  have "mset items = sum_list (map mset P)"
    using assms by (simp add: valid_packing_def mset_concat)
  moreover have "\<forall>f\<in>set (map mset P). sum_mset f \<le> C"
    using assms by (auto simp: valid_packing_def feasible_def list_all_iff sum_mset_sum_list)
  ultimately show ?thesis
    unfolding fits_in_def
    by (intro exI[of _ "[]"] exI[of _ "map mset P"]) simp
qed

lemma enat_le_finite: "b \<le> enat n \<Longrightarrow> b \<noteq> \<infinity>"
  by (cases b) simp_all

lemma enat_le_finite2: "b \<le> c \<Longrightarrow> c \<noteq> \<infinity> \<Longrightarrow> b \<noteq> (\<infinity>::enat)"
  by (cases b; cases c) simp_all

lemma enat_not_less_finite: "\<not> enat n < b \<Longrightarrow> b \<noteq> \<infinity>"
  by (cases b) simp_all

lemma bb_finite:
  "fst (branch_and_bound C items cajas peso mejor) \<noteq> \<infinity>"
  "fst mejor' \<noteq> \<infinity> \<Longrightarrow> fst (bb_for C w resto cajas' peso' i mejor') \<noteq> \<infinity>"
proof (induction C items cajas peso mejor and C w resto cajas' peso' i mejor'
       rule: branch_and_bound_bb_for.induct)
  case (1 C cajas peso mejor)
  show ?case by (auto simp: Let_def dest: enat_not_less_finite)
next
  case (2 C w resto cajas peso mejor)
  let ?lb = "calcular_lower_bound C (length cajas) peso"
  show ?case
  proof (cases "fst mejor \<le> enat (nat ?lb)")
    case True
    then have "fst mejor \<noteq> \<infinity>" by (rule enat_le_finite)
    then show ?thesis using True by simp
  next
    case False
    let ?m1 = "bb_for C w resto cajas (peso - w) 0 mejor"
    show ?thesis
    proof (cases "enat (length cajas) < fst ?m1 - 1")
      case True
      then show ?thesis
        using "2.IH"(2)[OF refl False refl refl True] False by (simp add: Let_def)
    next
      case nonew: False
      have "fst ?m1 \<le> enat (Suc (length cajas))" using nonew by (rule no_new_bin_bound)
      then have "fst ?m1 \<noteq> \<infinity>" by (rule enat_le_finite)
      then show ?thesis using False nonew by (simp add: Let_def)
    qed
  qed
next
  case (3 C w resto cajas peso i mejor)
  have "fst (bb_for C w resto cajas peso i mejor) \<le> fst mejor"
    using bb_sound(2) by (rule improves_le)
  then show ?case using "3.prems" by (rule enat_le_finite2)
qed

lemma branch_and_bound_leaf:
  "\<exists>B. branch_and_bound C lista [] (sum_list lista) (\<infinity>, []) = (enat (length B), B) \<and>
       leaf C [] lista B"
proof -
  let ?r = "branch_and_bound C lista [] (sum_list lista) (\<infinity>, [])"
  have "improves (leaf C [] lista) (\<infinity>, []) ?r" by (rule bb_sound(1))
  moreover have "fst ?r \<noteq> \<infinity>" by (rule bb_finite(1))
  ultimately have "leaf C [] lista (snd ?r)" "fst ?r = enat (length (snd ?r))"
    by (auto simp: improves_def)
  then have "?r = (enat (length (snd ?r)), snd ?r)" by (metis prod.collapse)
  then show ?thesis using \<open>leaf C [] lista (snd ?r)\<close> by blast
qed

lemma resultado_optimo_cases:
  "resultado_optimo C lista = Inr (branch_and_bound C lista [] (sum_list lista) (\<infinity>, [])) \<or>
   resultado_optimo C lista = Inl ZeroDivisionError \<and> lista \<noteq> [] \<and> C = 0 \<or>
   resultado_optimo C lista = Inl OverflowError \<and> lista \<noteq> [] \<and>
     true_div (sum_list lista) C = Inl OverflowError"
  by (simp add: resultado_optimo_def Let_def)

lemma resultado_optimo_Inr:
  assumes "resultado_optimo C lista = Inr r"
  shows "r = branch_and_bound C lista [] (sum_list lista) (\<infinity>, [])"
  using assms resultado_optimo_cases[of C lista] by auto

lemma resultado_optimo_leaf:
  assumes "resultado_optimo C lista = Inr r"
  shows "\<exists>B. r = (enat (length B), B) \<and> leaf C [] lista B"
  using branch_and_bound_leaf[of C lista] resultado_optimo_Inr[OF assms] by simp

lemma sum_list_le_length:
  assumes "\<forall>w\<in>set xs. w \<le> (C::int)"
  shows "sum_list xs \<le> int (length xs) * C"
  using assms by (induction xs) (simp_all add: algebra_simps)

lemma sum_list_nonneg_int:
  assumes "\<forall>w\<in>set xs. (0::int) \<le> w"
  shows "0 \<le> sum_list xs"
  using assms by (induction xs) simp_all


lemma resultado_optimo_fitting:
  assumes "0 < C" "\<forall>w\<in>set lista. 0 \<le> w \<and> w \<le> C"
  shows "resultado_optimo C lista = Inr (branch_and_bound C lista [] (sum_list lista) (\<infinity>, []))"
proof (cases "int (length lista) \<le> sys_maxsize")
  case True
  have "0 \<le> sum_list lista" using assms(2) by (intro sum_list_nonneg_int) simp
  moreover have "sum_list lista \<le> int (length lista) * C"
    using assms(2) by (intro sum_list_le_length) simp
  ultimately have "true_div (sum_list lista) C \<noteq> Inl OverflowError"
    using assms(1) True by (intro true_div_no_overflow_count[of _ _ "int (length lista)"])
  then show ?thesis using assms(1) resultado_optimo_cases[of C lista] by auto
next
  case False
  then show ?thesis using assms(1) by (simp add: resultado_optimo_def Let_def)
qed

lemma resultado_optimo_minimal:
  assumes "0 < C" "\<forall>w\<in>set lista. 0 \<le> w \<and> w \<le> C"
    and "resultado_optimo C lista = Inr (k, B)" "valid_packing C lista P"
  shows "k \<le> enat (length P)"
proof -
  have nn: "\<forall>w\<in>set lista. 0 \<le> w" using assms(2) by simp
  obtain Q where Q: "leaf C [] lista Q" "length Q \<le> length P"
    using fits_in_leaf[OF valid_packing_fits_in[OF assms(4)] nn] by blast
  have pre: "search_pre C [] lista (sum_list lista)"
    using assms(1,2) by (simp add: search_pre_def)
  have "optimal_for (leaf C [] lista) (branch_and_bound C lista [] (sum_list lista) (\<infinity>, []))"
    using pre by (rule bb_complete(1))
  moreover have "branch_and_bound C lista [] (sum_list lista) (\<infinity>, []) = (k, B)"
    using resultado_optimo_Inr[OF assms(3)] by simp
  ultimately have "k \<le> enat (length Q)" using Q(1) by (simp add: optimal_for_def)
  also have "\<dots> \<le> enat (length P)" using Q(2) by simp
  finally show ?thesis .
qed

section \<open>Properties of the genetic solver\<close>

lemma firsts_Nil [simp]: "firsts [] = []"
  by (simp add: firsts_def)

lemma firsts_snoc:
  "firsts (xs @ [b]) = (if b \<in> set xs then firsts xs else firsts xs @ [b])"
  by (simp add: firsts_def)

lemma set_firsts [simp]: "set (firsts xs) = set xs"
  by (simp add: firsts_def)

lemma distinct_firsts [simp]: "distinct (firsts xs)"
  by (simp add: firsts_def)

lemma length_firsts: "length (firsts xs) = card (set xs)"
  by (metis distinct_card distinct_firsts set_firsts)

lemma remdups_append_filter:
  "remdups (as @ bs) = filter (\<lambda>a. a \<notin> set bs) (remdups as) @ remdups bs"
  by (induction as) auto

lemma firsts_append:
  "firsts (xs @ ys) = firsts xs @ filter (\<lambda>y. y \<notin> set xs) (firsts ys)"
proof -
  have "remdups (rev ys @ rev xs) =
        filter (\<lambda>y. y \<notin> set xs) (remdups (rev ys)) @ remdups (rev xs)"
    by (simp add: remdups_append_filter)
  then show ?thesis by (simp add: firsts_def rev_filter)
qed

lemma firsts_prefix_old:
  "\<exists>zs. firsts (xs @ ys) = firsts xs @ zs"
  by (simp add: firsts_append)

lemma firsts_prefix_new:
  assumes "b \<notin> set xs"
  shows "\<exists>zs. firsts (xs @ b # ys) = firsts xs @ b # zs"
proof -
  have "firsts (b # ys) = b # filter (\<lambda>y. y \<noteq> b) (firsts ys)"
    using firsts_append[of "[b]" ys] by (simp add: firsts_def)
  then show ?thesis using assms by (simp add: firsts_append)
qed

lemma orden_ids_loop_firsts:
  "orden_ids_loop ys (firsts xs, set xs) = (firsts (xs @ ys), set (xs @ ys))"
proof (induction ys arbitrary: xs)
  case Nil
  show ?case by simp
next
  case (Cons b ys)
  show ?case
  proof (cases "b \<in> set xs")
    case True
    then have "orden_ids_loop (b # ys) (firsts xs, set xs) =
               orden_ids_loop ys (firsts (xs @ [b]), set (xs @ [b]))"
      by (simp add: firsts_snoc insert_absorb)
    then show ?thesis using Cons.IH[of "xs @ [b]"] by simp
  next
    case False
    then have "orden_ids_loop (b # ys) (firsts xs, set xs) =
               orden_ids_loop ys (firsts (xs @ [b]), set (xs @ [b]))"
      by (simp add: firsts_snoc)
    then show ?thesis using Cons.IH[of "xs @ [b]"] by simp
  qed
qed

lemma orden_ids_firsts: "fst (orden_ids_loop solution ([], {})) = firsts solution"
  using orden_ids_loop_firsts[of solution "[]"] by simp

lemma zip_snoc:
  "length xs < length items \<Longrightarrow> zip (xs @ [b]) items = zip xs items @ [(b, items ! length xs)]"
proof (induction xs arbitrary: items)
  case Nil
  then show ?case by (cases items) simp_all
next
  case (Cons x xs)
  then show ?case by (cases items) simp_all
qed

lemma label_items_snoc:
  "length xs < length items \<Longrightarrow>
   label_items l (xs @ [b]) items =
     label_items l xs items @ (if b = l then [items ! length xs] else [])"
  by (simp add: label_items_def zip_snoc)

lemma label_items_fresh: "l \<notin> set xs \<Longrightarrow> label_items l xs items = []"
proof -
  assume "l \<notin> set xs"
  then have "\<forall>p\<in>set (zip xs items). fst p \<noteq> l"
    by (metis set_zip_leftD prod.collapse)
  then show ?thesis by (simp add: label_items_def filter_empty_conv)
qed

lemma update_fresh:
  "k \<notin> fst ` set al \<Longrightarrow> AList.update k v al = al @ [(k, v)]"
  by (induction al) auto

lemma update_map_present:
  "distinct ks \<Longrightarrow> k \<in> set ks \<Longrightarrow>
   AList.update k v (map (\<lambda>l. (l, f l)) ks) = map (\<lambda>l. (l, if l = k then v else f l)) ks"
proof (induction ks)
  case Nil
  then show ?case by simp
next
  case (Cons a ks)
  show ?case
  proof (cases "a = k")
    case True
    then have "k \<notin> set ks" using Cons.prems by simp
    then have "map (\<lambda>l. (l, if l = k then v else f l)) ks = map (\<lambda>l. (l, f l)) ks"
      by (intro map_cong) auto
    then show ?thesis using True by simp
  next
    case False
    then show ?thesis using Cons by simp
  qed
qed

lemma map_of_keyed:
  "map_of (map (\<lambda>l. (l, f l)) ks) k = (if k \<in> set ks then Some (f k) else None)"
  by (induction ks) auto

lemma sums_of_snoc:
  assumes "length xs < length items"
  shows "AList.update b
           ((case map_of (sums_of xs items) b of None \<Rightarrow> 0 | Some v \<Rightarrow> v) + items ! length xs)
           (sums_of xs items)
         = sums_of (xs @ [b]) items"
proof (cases "b \<in> set xs")
  case True
  have "sums_of (xs @ [b]) items =
        map (\<lambda>l. (l, if l = b then sum_list (label_items b xs items) + items ! length xs
                      else sum_list (label_items l xs items))) (firsts xs)"
    using True assms unfolding sums_of_def
    by (auto simp: firsts_snoc label_items_snoc)
  then show ?thesis
    using True unfolding sums_of_def
    by (simp add: map_of_keyed update_map_present)
next
  case False
  have "fst ` set (sums_of xs items) = set xs"
    unfolding sums_of_def by (simp add: image_image)
  then have fresh: "b \<notin> fst ` set (sums_of xs items)" using False by simp
  have "sums_of (xs @ [b]) items = sums_of xs items @ [(b, items ! length xs)]"
    using False assms unfolding sums_of_def
    by (auto simp: firsts_snoc label_items_snoc label_items_fresh)
  then show ?thesis
    using False update_fresh[OF fresh] unfolding sums_of_def
    by (simp add: map_of_keyed)
qed

lemma bins_sum_loop_sums_of:
  "length xs + length ys \<le> length items \<Longrightarrow>
   bins_sum_loop items (List.enumerate (length xs) ys) (sums_of xs items)
     = Inr (sums_of (xs @ ys) items)"
proof (induction ys arbitrary: xs)
  case Nil
  show ?case by simp
next
  case (Cons b ys)
  have lt: "length xs < length items" using Cons.prems by simp
  have "bins_sum_loop items (List.enumerate (length (xs @ [b])) ys) (sums_of (xs @ [b]) items)
        = Inr (sums_of ((xs @ [b]) @ ys) items)"
    by (rule Cons.IH) (use Cons.prems in simp)
  then show ?case using lt by (simp add: sums_of_snoc)
qed

lemma bins_sum_loop_error:
  "n \<le> length items \<Longrightarrow> length items < n + length ys \<Longrightarrow>
   bins_sum_loop items (List.enumerate n ys) d = Inl IndexError"
proof (induction ys arbitrary: n d)
  case Nil
  then show ?case by simp
next
  case (Cons b ys)
  show ?case
  proof (cases "length items \<le> n")
    case True
    then show ?thesis by simp
  next
    case False
    then have "bins_sum_loop items (List.enumerate (Suc n) ys)
                 (AList.update b ((case map_of d b of None \<Rightarrow> 0 | Some v \<Rightarrow> v) + items ! n) d)
               = Inl IndexError"
      using Cons.prems by (intro Cons.IH) simp_all
    then show ?thesis using False by simp
  qed
qed

lemma fitness_eq:
  assumes "length solution \<le> length items"
  shows "fitness solution items C =
           Inr (int (length (firsts solution))
                + sum_list (map (\<lambda>l. max 0 (sum_list (label_items l solution items) - C))
                              (firsts solution)) * 10)"
proof -
  have "sums_of [] items = []" by (simp add: sums_of_def)
  then have "bins_sum_loop items (List.enumerate 0 solution) [] = Inr (sums_of solution items)"
    using bins_sum_loop_sums_of[of "[]" solution items] assms by simp
  then show ?thesis
    by (simp add: fitness_def sums_of_def comp_def)
qed

lemma fitness_error:
  "length items < length solution \<Longrightarrow> fitness solution items C = Inl IndexError"
  using bins_sum_loop_error[of 0 items solution "[]"] by (simp add: fitness_def)

lemma length_bins_of [simp]: "length (bins_of xs items) = length (firsts xs)"
  by (simp add: bins_of_def)

lemma map_fst_dict_of: "map fst (dict_of xs items) = [0..<length (firsts xs)]"
  by (simp add: dict_of_def)

lemma map_snd_dict_of: "map snd (dict_of xs items) = bins_of xs items"
  by (simp add: dict_of_def)

lemma map_of_dict_of:
  "i < length (firsts xs) \<Longrightarrow> map_of (dict_of xs items) i = Some (bins_of xs items ! i)"
  unfolding dict_of_def
  using map_of_zip_nth[of "[0..<length (firsts xs)]" "bins_of xs items" i] by simp

lemma map_of_dict_of_fresh:
  "map_of (dict_of xs items) (length (firsts xs)) = None"
proof -
  have "length (firsts xs) \<notin> fst ` set (dict_of xs items)"
    using map_fst_dict_of[of xs items] by (metis atLeastLessThan_iff less_irrefl set_map set_upt)
  then show ?thesis by (simp add: map_of_eq_None_iff)
qed

lemma update_append_present:
  "k \<in> fst ` set al \<Longrightarrow> AList.update k v (al @ bl) = AList.update k v al @ bl"
  by (induction al) auto

lemma update_append_absent:
  "k \<notin> fst ` set al \<Longrightarrow> AList.update k v (al @ bl) = al @ AList.update k v bl"
  by (induction al) auto

lemma update_zip_present:
  "i < length vs \<Longrightarrow> AList.update i v (zip [0..<length vs] vs) = zip [0..<length vs] (vs[i := v])"
proof (induction vs arbitrary: i rule: rev_induct)
  case Nil
  then show ?case by simp
next
  case (snoc a vs)
  show ?case
  proof (cases "i < length vs")
    case True
    have "i \<in> fst ` set (zip [0..<length vs] vs)"
      using True by (metis (no_types, lifting) atLeastLessThan_iff image_set length_upt
          map_fst_zip minus_nat.diff_0 set_upt zero_le)
    then show ?thesis using True snoc.IH[OF True]
      by (simp add: update_append_present list_update_append)
  next
    case False
    then have i: "i = length vs" using snoc.prems by simp
    have "i \<notin> fst ` set (zip [0..<length vs] vs)"
      using i by (metis atLeastLessThan_iff image_set length_upt less_irrefl
          map_fst_zip minus_nat.diff_0 set_upt)
    then show ?thesis using i
      by (simp add: update_append_absent)
  qed
qed

lemma dict_of_snoc:
  assumes lt: "length xs < length items"
    and idx: "i < length (firsts (xs @ [b]))" "firsts (xs @ [b]) ! i = b"
  shows "AList.update i
           ((case map_of (dict_of xs items) i of None \<Rightarrow> [] | Some caja \<Rightarrow> caja)
              @ [items ! length xs])
           (dict_of xs items)
         = dict_of (xs @ [b]) items"
proof (cases "b \<in> set xs")
  case True
  then have fs: "firsts (xs @ [b]) = firsts xs" by (simp add: firsts_snoc)
  have i: "i < length (firsts xs)" "firsts xs ! i = b" using idx fs by simp_all
  have other: "label_items (firsts xs ! j) (xs @ [b]) items = label_items (firsts xs ! j) xs items"
    if "j < length (firsts xs)" "j \<noteq> i" for j
  proof -
    have "firsts xs ! j \<noteq> b"
      using that i by (metis distinct_firsts nth_eq_iff_index_eq)
    then show ?thesis using lt by (simp add: label_items_snoc)
  qed
  have "bins_of (xs @ [b]) items = (bins_of xs items)[i := bins_of xs items ! i @ [items ! length xs]]"
  proof (rule nth_equalityI)
    show "length (bins_of (xs @ [b]) items) =
          length ((bins_of xs items)[i := bins_of xs items ! i @ [items ! length xs]])"
      by (simp add: fs)
  next
    fix j assume "j < length (bins_of (xs @ [b]) items)"
    then have j: "j < length (firsts xs)" by (simp add: fs)
    show "bins_of (xs @ [b]) items ! j =
          (bins_of xs items)[i := bins_of xs items ! i @ [items ! length xs]] ! j"
    proof (cases "j = i")
      case True
      then show ?thesis using i lt by (simp add: bins_of_def fs label_items_snoc)
    next
      case False
      then show ?thesis using j other[OF j False] by (simp add: bins_of_def fs)
    qed
  qed
  then have "dict_of (xs @ [b]) items =
             zip [0..<length (bins_of xs items)]
                 ((bins_of xs items)[i := bins_of xs items ! i @ [items ! length xs]])"
    by (simp add: dict_of_def fs)
  also have "\<dots> = AList.update i (bins_of xs items ! i @ [items ! length xs])
                     (zip [0..<length (bins_of xs items)] (bins_of xs items))"
    using update_zip_present[of i "bins_of xs items" "bins_of xs items ! i @ [items ! length xs]"] i(1)
    by simp
  finally show ?thesis using map_of_dict_of[OF i(1), of items] by (simp add: dict_of_def)
next
  case False
  then have fs: "firsts (xs @ [b]) = firsts xs @ [b]" by (simp add: firsts_snoc)
  have "i = length (firsts xs)"
  proof (rule ccontr)
    assume "i \<noteq> length (firsts xs)"
    then have "i < length (firsts xs)" using idx(1) fs by simp
    then have "firsts xs ! i = b" using idx(2) fs by (simp add: nth_append)
    then have "b \<in> set (firsts xs)" using \<open>i < length (firsts xs)\<close> by (metis nth_mem)
    then show False using False by simp
  qed
  have keep: "label_items l (xs @ [b]) items = label_items l xs items" if "l \<in> set (firsts xs)" for l
  proof -
    have "l \<noteq> b" using that False by auto
    then show ?thesis using lt by (simp add: label_items_snoc)
  qed
  have "bins_of (xs @ [b]) items = bins_of xs items @ [[items ! length xs]]"
    using lt False keep by (simp add: bins_of_def fs label_items_snoc label_items_fresh)
  then have "dict_of (xs @ [b]) items = dict_of xs items @ [(length (firsts xs), [items ! length xs])]"
    by (simp add: dict_of_def fs)
  moreover have "length (firsts xs) \<notin> fst ` set (dict_of xs items)"
    using map_of_dict_of_fresh[of xs items] by (simp add: map_of_eq_None_iff)
  ultimately show ?thesis
    using \<open>i = length (firsts xs)\<close> map_of_dict_of_fresh[of xs items]
    by (simp add: update_fresh)
qed

lemma id_map_lookup:
  assumes "orden = firsts (xs @ b # ys)"
  shows "\<exists>i. map_of (zip orden [0..<length orden]) b = Some i \<and>
             i < length (firsts (xs @ [b])) \<and> firsts (xs @ [b]) ! i = b"
proof -
  obtain zs where zs: "orden = firsts (xs @ [b]) @ zs"
    using firsts_prefix_old[of "xs @ [b]" ys] assms by auto
  have "b \<in> set (firsts (xs @ [b]))" by simp
  then obtain i where i: "i < length (firsts (xs @ [b]))" "firsts (xs @ [b]) ! i = b"
    by (meson in_set_conv_nth)
  have io: "i < length orden" "orden ! i = b" using i zs by (simp_all add: nth_append)
  have "distinct orden" using assms by simp
  then have "map_of (zip orden [0..<length orden]) (orden ! i) = Some ([0..<length orden] ! i)"
    using io(1) by (intro map_of_zip_nth) simp_all
  then show ?thesis using i io by auto
qed

lemma bins_dict_loop_dict_of:
  "length xs + length ys \<le> length items \<Longrightarrow> orden = firsts (xs @ ys) \<Longrightarrow>
   bins_dict_loop (zip orden [0..<length orden]) items (List.enumerate (length xs) ys)
       (dict_of xs items)
     = Inr (dict_of (xs @ ys) items)"
proof (induction ys arbitrary: xs)
  case Nil
  show ?case by simp
next
  case (Cons b ys)
  have lt: "length xs < length items" using Cons.prems by simp
  obtain i where i: "map_of (zip orden [0..<length orden]) b = Some i"
    "i < length (firsts (xs @ [b]))" "firsts (xs @ [b]) ! i = b"
    using id_map_lookup[OF Cons.prems(2)] by blast
  have "bins_dict_loop (zip orden [0..<length orden]) items
          (List.enumerate (length (xs @ [b])) ys) (dict_of (xs @ [b]) items)
        = Inr (dict_of ((xs @ [b]) @ ys) items)"
    by (rule Cons.IH) (use Cons.prems in simp_all)
  then show ?case using lt i(1) dict_of_snoc[OF lt i(2,3)] by simp
qed

lemma bins_dict_loop_error:
  "n \<le> length items \<Longrightarrow> length items < n + length ys \<Longrightarrow>
   \<exists>e. bins_dict_loop id_map items (List.enumerate n ys) d = Inl e"
proof (induction ys arbitrary: n d)
  case Nil
  then show ?case by simp
next
  case (Cons b ys)
  show ?case
  proof (cases "map_of id_map b")
    case None
    then show ?thesis by simp
  next
    case (Some bid)
    show ?thesis
    proof (cases "length items \<le> n")
      case True
      then show ?thesis using Some by simp
    next
      case False
      then have "\<exists>e. bins_dict_loop id_map items (List.enumerate (Suc n) ys)
                 (AList.update bid ((case map_of d bid of None \<Rightarrow> [] | Some caja \<Rightarrow> caja) @ [items ! n]) d)
               = Inl e"
        using Cons.prems by (intro Cons.IH) simp_all
      then show ?thesis using False Some by simp
    qed
  qed
qed

lemma bins_in_order_all:
  "distinct (map fst d) \<Longrightarrow> set e \<subseteq> set d \<Longrightarrow> bins_in_order d (map fst e) = Inr (map snd e)"
proof (induction e)
  case Nil
  show ?case by simp
next
  case (Cons p e)
  have m: "map_of d (fst p) = Some (snd p)"
    using Cons.prems by (intro map_of_is_SomeI) simp_all
  have ih: "bins_in_order d (map fst e) = Inr (map snd e)"
    using Cons by simp
  show ?case by (simp add: m ih)
qed

lemma decodificar_bins_eq:
  assumes "length solution \<le> length items"
  shows "decodificar_bins solution items = Inr (bins_of solution items)"
proof -
  let ?orden = "firsts solution"
  have "dict_of [] items = []" by (simp add: dict_of_def bins_of_def)
  then have loop: "bins_dict_loop (zip ?orden [0..<length ?orden]) items (List.enumerate 0 solution) []
        = Inr (dict_of solution items)"
    using bins_dict_loop_dict_of[of "[]" solution items ?orden] assms by simp
  have "distinct (map fst (dict_of solution items))"
    by (simp add: map_fst_dict_of)
  then have "bins_in_order (dict_of solution items) (map fst (dict_of solution items))
             = Inr (map snd (dict_of solution items))"
    by (rule bins_in_order_all) simp
  then have "bins_in_order (dict_of solution items) [0..<length (dict_of solution items)]
             = Inr (bins_of solution items)"
    by (simp add: map_fst_dict_of map_snd_dict_of dict_of_def)
  then show ?thesis using loop by (simp add: decodificar_bins_def orden_ids_firsts Let_def)
qed

lemma decodificar_bins_error:
  assumes "length items < length solution"
  shows "\<exists>e. decodificar_bins solution items = Inl e"
proof -
  obtain e where "bins_dict_loop
      (zip (firsts solution) [0..<length (firsts solution)]) items (List.enumerate 0 solution) [] = Inl e"
    using bins_dict_loop_error[of 0 items solution] assms by auto
  then show ?thesis by (simp add: decodificar_bins_def orden_ids_firsts Let_def)
qed





lemma penalty_zero_iff:
  fixes f :: "'a \<Rightarrow> int"
  shows "sum_list (map (\<lambda>x. max 0 (f x - C)) ks) = 0 \<longleftrightarrow> (\<forall>x\<in>set ks. f x \<le> C)"
proof -
  have "sum_list (map (\<lambda>x. max 0 (f x - C)) ks) = 0 \<longleftrightarrow>
        (\<forall>y\<in>set (map (\<lambda>x. max 0 (f x - C)) ks). y = 0)"
    by (intro sum_list_nonneg_eq_0_iff) auto
  also have "\<dots> \<longleftrightarrow> (\<forall>x\<in>set ks. f x \<le> C)" by auto
  finally show ?thesis .
qed

lemma fitness_feasible:
  assumes "length solution \<le> length items"
  shows "feasible C (bins_of solution items) \<longleftrightarrow>
         fitness solution items C = Inr (int (length (bins_of solution items)))"
proof -
  have "feasible C (bins_of solution items) \<longleftrightarrow>
        (\<forall>l\<in>set (firsts solution). sum_list (label_items l solution items) \<le> C)"
    by (simp add: feasible_def bins_of_def list_all_iff)
  also have "\<dots> \<longleftrightarrow>
        sum_list (map (\<lambda>l. max 0 (sum_list (label_items l solution items) - C)) (firsts solution)) = 0"
    by (simp only: penalty_zero_iff)
  finally show ?thesis by (simp add: fitness_eq[OF assms])
qed

lemma random_vector_length:
  "k = 0 \<or> 0 < n \<Longrightarrow> \<exists>v pos'. random_vector rnd n k pos = Inr (v, pos') \<and> length v = k"
proof (induction k arbitrary: pos)
  case 0
  show ?case by simp
next
  case (Suc k)
  then have n: "0 < n" by simp
  obtain v pos' where "random_vector rnd n k (Suc pos) = Inr (v, pos')" "length v = k"
    using Suc.IH[of "Suc pos"] n by blast
  then show ?case using n by (simp add: randint_def)
qed

lemma generate_population_wf:
  "\<exists>pop pos'. generate_population rnd n k pos = Inr (pop, pos') \<and> length pop = k \<and> wf_pop n pop"
proof (induction k arbitrary: pos)
  case 0
  show ?case by (simp add: wf_pop_def)
next
  case (Suc k)
  obtain v pos1 where v: "random_vector rnd n n pos = Inr (v, pos1)" "length v = n"
    using random_vector_length[of n n rnd pos] by auto
  obtain pop pos2 where "generate_population rnd n k pos1 = Inr (pop, pos2)"
    "length pop = k" "wf_pop n pop"
    using Suc.IH[of pos1] by blast
  then show ?case using v by (simp add: wf_pop_def)
qed

lemma min_key_from_mem:
  "min_key_from key best kb xs = Inr x \<Longrightarrow> x = best \<or> x \<in> set xs"
proof (induction xs arbitrary: best kb)
  case Nil
  then show ?case by simp
next
  case (Cons a xs)
  then show ?case by (fastforce split: sum.splits if_splits)
qed

lemma min_key_mem: "min_key key xs = Inr x \<Longrightarrow> x \<in> set xs"
  by (auto simp: min_key_def split: list.splits sum.splits dest: min_key_from_mem)

lemma min_key_from_total:
  "\<forall>x\<in>set xs. \<exists>k. key x = Inr k \<Longrightarrow> \<exists>x. min_key_from key best kb xs = Inr x"
proof (induction xs arbitrary: best kb)
  case Nil
  show ?case by simp
next
  case (Cons a xs)
  then obtain k where k: "key a = Inr k" by auto
  have "\<forall>x\<in>set xs. \<exists>k. key x = Inr k" using Cons.prems by simp
  then have "\<exists>x. min_key_from key a k xs = Inr x" "\<exists>x. min_key_from key best kb xs = Inr x"
    by (rule Cons.IH)+
  then show ?case using k by simp
qed

lemma min_key_total:
  "xs \<noteq> [] \<Longrightarrow> \<forall>x\<in>set xs. \<exists>k. key x = Inr k \<Longrightarrow> \<exists>x. min_key key xs = Inr x"
proof (cases xs)
  case Nil
  assume "xs \<noteq> []"
  then show ?thesis using Nil by simp
next
  case (Cons a rest)
  assume all: "\<forall>x\<in>set xs. \<exists>k. key x = Inr k"
  then obtain k where k: "key a = Inr k" using Cons by auto
  have "\<forall>x\<in>set rest. \<exists>k. key x = Inr k" using all Cons by simp
  then have "\<exists>x. min_key_from key a k rest = Inr x" by (rule min_key_from_total)
  then obtain x where "min_key_from key a k rest = Inr x" ..
  then show ?thesis using Cons k by (simp add: min_key_def)
qed

lemma min_key_fitness_total:
  assumes "pop \<noteq> []" "wf_pop (length items) pop"
  shows "\<exists>x. min_key (\<lambda>s. fitness s items C) pop = Inr x \<and> x \<in> set pop"
proof -
  have "\<forall>x\<in>set pop. \<exists>k. fitness x items C = Inr k"
    using assms(2) by (auto simp: wf_pop_def fitness_eq)
  with assms(1) have "\<exists>x. min_key (\<lambda>s. fitness s items C) pop = Inr x"
    by (rule min_key_total)
  then obtain x where x: "min_key (\<lambda>s. fitness s items C) pop = Inr x" ..
  then have "x \<in> set pop" by (rule min_key_mem)
  with x show ?thesis by blast
qed

lemma sample_draw_subset:
  "k \<le> length pop \<Longrightarrow> set (fst (sample_draw rnd pop k pos)) \<subseteq> set pop"
proof (induction k arbitrary: pop pos)
  case 0
  show ?case by simp
next
  case (Suc k)
  let ?i = "rnd pos mod length pop"
  let ?rest = "take ?i pop @ drop (Suc ?i) pop"
  have pos: "0 < length pop" using Suc.prems by auto
  then have i: "?i < length pop" by (rule mod_less_divisor)
  have "length ?rest = length pop - 1" using i by simp
  then have "k \<le> length ?rest" using Suc.prems by simp
  then have "set (fst (sample_draw rnd ?rest k (Suc pos))) \<subseteq> set ?rest" by (rule Suc.IH)
  moreover have "set ?rest \<subseteq> set pop"
    by (auto dest: in_set_takeD in_set_dropD)
  moreover have "pop ! ?i \<in> set pop" using i by simp
  ultimately show ?case by (auto simp: Let_def)
qed

lemma selection_mem:
  "selection rnd pop items C k pos = Inr (s, pos') \<Longrightarrow> s \<in> set pop"
proof -
  assume a: "selection rnd pop items C k pos = Inr (s, pos')"
  then have k: "k \<le> length pop"
    by (auto simp: selection_def sample_def split: if_splits)
  have "s \<in> set (fst (sample_draw rnd pop k pos))"
    using a k by (auto simp: selection_def sample_def split: sum.splits prod.splits dest: min_key_mem)
  then show ?thesis using sample_draw_subset[OF k] by blast
qed

lemma selection_small:
  "length pop < k \<Longrightarrow> selection rnd pop items C k pos = Inl ValueError"
  by (simp add: selection_def sample_def)

lemma crossover_length:
  "crossover rnd p1 p2 pos = Inr ((c1, c2), pos') \<Longrightarrow> length p1 = n \<Longrightarrow> length p2 = n \<Longrightarrow>
   length c1 = n \<and> length c2 = n"
  by (auto simp: crossover_def Let_def split: if_splits sum.splits)

lemma mutate_length:
  "mutate rnd v rate pos = Inr (m, pos') \<Longrightarrow> length m = length v"
  by (auto simp: mutate_def Let_def split: if_splits sum.splits)

lemma reproduccion_wf:
  "reproduccion rnd items C ps rate pop new_pop pos = Inr (np, pos') \<Longrightarrow>
   wf_pop n pop \<Longrightarrow> wf_pop n new_pop \<Longrightarrow> wf_pop n np"
proof (induction rnd items C ps rate pop new_pop pos rule: reproduccion.induct)
  case (1 rnd items C ps rate pop new_pop pos)
  show ?case
  proof (cases "length new_pop < ps")
    case False
    then show ?thesis using "1.prems" by (subst (asm) reproduccion.simps) simp
  next
    case True
    from "1.prems"(1) True obtain p1 pos1 p2 pos2 cs pos3 m1 pos4 where
      s1: "selection rnd pop items C 3 pos = Inr (p1, pos1)" and
      s2: "selection rnd pop items C 3 pos1 = Inr (p2, pos2)" and
      cr: "crossover rnd p1 p2 pos2 = Inr (cs, pos3)" and
      m1: "mutate rnd (fst cs) rate pos3 = Inr (m1, pos4)"
      by (subst (asm) reproduccion.simps) (simp split: sum.splits prod.splits)
    have lp: "length p1 = n" "length p2 = n"
      using selection_mem[OF s1] selection_mem[OF s2] "1.prems"(2) by (auto simp: wf_pop_def)
    have lc: "length (fst cs) = n" "length (snd cs) = n"
      using crossover_length[of rnd p1 p2 pos2 "fst cs" "snd cs" pos3 n] cr lp by simp_all
    have lm1: "length m1 = n" using mutate_length[OF m1] lc by simp
    have wf1: "wf_pop n (new_pop @ [m1])" using "1.prems"(3) lm1 by (simp add: wf_pop_def)
    show ?thesis
    proof (cases "length (new_pop @ [m1]) < ps")
      case more: True
      from "1.prems"(1) True s1 s2 cr m1 more obtain m2 pos5 where
        m2: "mutate rnd (snd cs) rate pos4 = Inr (m2, pos5)" and
        rec: "reproduccion rnd items C ps rate pop (new_pop @ [m1] @ [m2]) pos5 = Inr (np, pos')"
        by (subst (asm) reproduccion.simps) (simp split: sum.splits prod.splits)
      have "length m2 = n" using mutate_length[OF m2] lc by simp
      then have wf2: "wf_pop n (new_pop @ [m1] @ [m2])" using wf1 by (simp add: wf_pop_def)
      show ?thesis
        using "1.IH"(1)[OF True s1 refl s2 refl cr refl m1 refl more m2 refl rec "1.prems"(2) wf2] .
    next
      case nomore: False
      from "1.prems"(1) True s1 s2 cr m1 nomore have
        rec: "reproduccion rnd items C ps rate pop (new_pop @ [m1]) pos4 = Inr (np, pos')"
        by (subst (asm) reproduccion.simps) simp
      show ?thesis
        using "1.IH"(2)[OF True s1 refl s2 refl cr refl m1 refl nomore rec "1.prems"(2) wf1] .
    qed
  qed
qed

lemma update_best_fields:
  assumes "update_best items C best_gen b st = Inr st'"
  shows "population st' = population st" "history_bins st' = history_bins st"
    "last_best_bins st' = last_best_bins st" "gens_without_change st' = gens_without_change st"
    "best_overall st' = best_overall st \<or> best_overall st' = best_gen"
  using assms by (auto simp: update_best_def split: if_splits sum.splits)

lemma update_best_total:
  assumes "length best_gen = length items" "length (best_overall st) = length items"
  shows "\<exists>st'. update_best items C best_gen b st = Inr st'"
  using assms by (simp add: update_best_def fitness_eq)

lemma early_stopping_fields:
  "population (fst (early_stopping p b st)) = population st"
  "best_overall (fst (early_stopping p b st)) = best_overall st"
  "history_bins (fst (early_stopping p b st)) = history_bins st"
  by (simp_all add: early_stopping_def Let_def)

lemma generacion_cases:
  assumes "generacion rnd items C ps rate p st pos = Inr (r, pos')"
  obtains elite new_population best_gen st2 where
    "min_key (\<lambda>s. fitness s items C) (population st) = Inr elite"
    "reproduccion rnd items C ps rate (population st) [elite] pos = Inr (new_population, pos')"
    "min_key (\<lambda>s. fitness s items C) new_population = Inr best_gen"
    "update_best items C best_gen (card (set best_gen))
       (st\<lparr>population := new_population,
           history_bins := history_bins st @ [card (set best_gen)]\<rparr>) = Inr st2"
    "r = early_stopping p (card (set best_gen)) st2"
proof -
  from assms obtain elite where
    e: "min_key (\<lambda>s. fitness s items C) (population st) = Inr elite"
    by (cases "min_key (\<lambda>s. fitness s items C) (population st)") (simp_all add: generacion_def)
  from assms e obtain new_population pos1 where
    r: "reproduccion rnd items C ps rate (population st) [elite] pos = Inr (new_population, pos1)"
    by (cases "reproduccion rnd items C ps rate (population st) [elite] pos")
       (auto simp: generacion_def)
  from assms e r obtain best_gen where
    b: "min_key (\<lambda>s. fitness s items C) new_population = Inr best_gen"
    by (cases "min_key (\<lambda>s. fitness s items C) new_population") (simp_all add: generacion_def)
  let ?st1 = "st\<lparr>population := new_population,
                 history_bins := history_bins st @ [card (set best_gen)]\<rparr>"
  from assms e r b obtain st2 where
    u: "update_best items C best_gen (card (set best_gen)) ?st1 = Inr st2"
    by (cases "update_best items C best_gen (card (set best_gen)) ?st1")
       (simp_all add: generacion_def Let_def)
  from assms e r b u have "r = early_stopping p (card (set best_gen)) st2" "pos' = pos1"
    by (simp_all add: generacion_def Let_def)
  with e r b u that show thesis by blast
qed

lemma generacion_inv:
  assumes "generacion rnd items C ps rate p st pos = Inr (r, pos')" "ga_inv n st"
  shows "ga_inv n (fst r)"
proof -
  from assms(1) obtain elite new_population best_gen st2 where
    e: "min_key (\<lambda>s. fitness s items C) (population st) = Inr elite" and
    r: "reproduccion rnd items C ps rate (population st) [elite] pos = Inr (new_population, pos')" and
    b: "min_key (\<lambda>s. fitness s items C) new_population = Inr best_gen" and
    u: "update_best items C best_gen (card (set best_gen))
       (st\<lparr>population := new_population,
           history_bins := history_bins st @ [card (set best_gen)]\<rparr>) = Inr st2" and
    s: "r = early_stopping p (card (set best_gen)) st2"
    by (rule generacion_cases)
  have wf: "wf_pop n (population st)" and lb: "length (best_overall st) = n"
    using assms(2) by (simp_all add: ga_inv_def)
  have "elite \<in> set (population st)" using e by (rule min_key_mem)
  then have "wf_pop n [elite]" using wf by (simp add: wf_pop_def)
  with r wf have wfn: "wf_pop n new_population" by (rule reproduccion_wf)
  have "best_gen \<in> set new_population" using b by (rule min_key_mem)
  then have lg: "length best_gen = n" using wfn by (simp add: wf_pop_def)
  have "population st2 = new_population" using update_best_fields(1)[OF u] by simp
  moreover have "length (best_overall st2) = n"
    using update_best_fields(5)[OF u] lb lg by auto
  ultimately show ?thesis using wfn s by (simp add: ga_inv_def early_stopping_fields)
qed

lemma generaciones_inv:
  "generaciones rnd items C ps rate p g st pos = Inr (st', pos') \<Longrightarrow> ga_inv n st \<Longrightarrow>
   ga_inv n st'"
proof (induction g arbitrary: st pos)
  case 0
  then show ?case by simp
next
  case (Suc g)
  from Suc.prems(1) obtain r pos1 where
    g1: "generacion rnd items C ps rate p st pos = Inr (r, pos1)"
    by (cases "generacion rnd items C ps rate p st pos") auto
  have inv1: "ga_inv n (fst r)" using g1 Suc.prems(2) by (rule generacion_inv)
  show ?case
  proof (cases "snd r")
    case True
    then have "st' = fst r" using Suc.prems(1) g1 by simp
    then show ?thesis using inv1 by simp
  next
    case False
    then have "generaciones rnd items C ps rate p g (fst r) pos1 = Inr (st', pos')"
      using Suc.prems(1) g1 by simp
    then show ?thesis using inv1 by (rule Suc.IH)
  qed
qed

lemma ga_cases:
  assumes "genetic_algorithm_bpp items C ps g rate rnd p = Inr (k, bins, best, hist)"
  obtains population0 pos0 best0 st pos1 where
    "generate_population rnd (length items) ps 0 = Inr (population0, pos0)"
    "min_key (\<lambda>s. fitness s items C) population0 = Inr best0"
    "generaciones rnd items C ps rate p g
       \<lparr>population = population0, best_overall = best0,
        best_bins_overall = card (set best0), last_best_bins = None,
        gens_without_change = 0, history_bins = []\<rparr> pos0 = Inr (st, pos1)"
    "min_key (\<lambda>s. fitness s items C) (best_overall st # population st) = Inr best"
    "decodificar_bins best items = Inr bins" "k = length bins" "hist = history_bins st"
proof -
  from assms obtain population0 pos0 where
    a: "generate_population rnd (length items) ps 0 = Inr (population0, pos0)"
    by (cases "generate_population rnd (length items) ps 0")
       (auto simp: genetic_algorithm_bpp_def)
  from assms a obtain best0 where
    b: "min_key (\<lambda>s. fitness s items C) population0 = Inr best0"
    by (cases "min_key (\<lambda>s. fitness s items C) population0")
       (simp_all add: genetic_algorithm_bpp_def)
  let ?st0 = "\<lparr>population = population0, best_overall = best0,
        best_bins_overall = card (set best0), last_best_bins = None,
        gens_without_change = 0, history_bins = []\<rparr>"
  from assms a b obtain st pos1 where
    c: "generaciones rnd items C ps rate p g ?st0 pos0 = Inr (st, pos1)"
    by (cases "generaciones rnd items C ps rate p g ?st0 pos0")
       (auto simp: genetic_algorithm_bpp_def)
  from assms a b c obtain best' where
    d: "min_key (\<lambda>s. fitness s items C) (best_overall st # population st) = Inr best'"
    by (cases "min_key (\<lambda>s. fitness s items C) (best_overall st # population st)")
       (simp_all add: genetic_algorithm_bpp_def)
  from assms a b c d obtain bins' where
    e: "decodificar_bins best' items = Inr bins'"
    by (cases "decodificar_bins best' items") (simp_all add: genetic_algorithm_bpp_def)
  from assms a b c d e have "k = length bins'" "bins = bins'" "best = best'" "hist = history_bins st"
    by (auto simp: genetic_algorithm_bpp_def)
  with a b c d e that show thesis by blast
qed

lemma ga_result:
  assumes "genetic_algorithm_bpp items C ps g rate rnd p = Inr (k, bins, best, hist)"
  shows "length best = length items" "bins = bins_of best items" "k = length bins"
proof -
  from assms obtain population0 pos0 best0 st pos1 where
    a: "generate_population rnd (length items) ps 0 = Inr (population0, pos0)" and
    b: "min_key (\<lambda>s. fitness s items C) population0 = Inr best0" and
    c: "generaciones rnd items C ps rate p g
       \<lparr>population = population0, best_overall = best0,
        best_bins_overall = card (set best0), last_best_bins = None,
        gens_without_change = 0, history_bins = []\<rparr> pos0 = Inr (st, pos1)" and
    d: "min_key (\<lambda>s. fitness s items C) (best_overall st # population st) = Inr best" and
    e: "decodificar_bins best items = Inr bins" and k: "k = length bins"
    by (rule ga_cases)
  from generate_population_wf[of rnd "length items" ps 0] a
  have wf0: "wf_pop (length items) population0" by auto
  have "best0 \<in> set population0" using b by (rule min_key_mem)
  then have "length best0 = length items" using wf0 by (simp add: wf_pop_def)
  then have "ga_inv (length items) \<lparr>population = population0, best_overall = best0,
        best_bins_overall = card (set best0), last_best_bins = None,
        gens_without_change = 0, history_bins = []\<rparr>"
    using wf0 by (simp add: ga_inv_def)
  with c have inv: "ga_inv (length items) st" by (rule generaciones_inv)
  have "best \<in> set (best_overall st # population st)" using d by (rule min_key_mem)
  then show l: "length best = length items" using inv by (auto simp: ga_inv_def wf_pop_def)
  then show "bins = bins_of best items" using e by (simp add: decodificar_bins_eq)
  show "k = length bins" by (rule k)
qed

lemma unchanged_run_snoc:
  "unchanged_run (h @ [b]) = (if h \<noteq> [] \<and> last h = b then Suc (unchanged_run h) else 0)"
proof (cases h rule: rev_cases)
  case Nil
  then show ?thesis by (simp add: unchanged_run_def)
next
  case (snoc h' a)
  then show ?thesis by (auto simp: unchanged_run_def)
qed

lemma early_stopping_inv:
  assumes "gens_without_change st = unchanged_run h"
    and "last_best_bins st = (if h = [] then None else Some (last h))"
    and "history_bins st = h @ [b]" and "0 < p"
  shows "stop_inv (fst (early_stopping p b st))"
    and "snd (early_stopping p b st) \<longleftrightarrow> p \<le> unchanged_run (h @ [b])"
  using assms
  by (auto simp: early_stopping_def stop_inv_def unchanged_run_snoc Let_def)

lemma generacion_history:
  assumes "generacion rnd items C ps rate p st pos = Inr (r, pos')" "stop_inv st" "0 < p"
  shows "\<exists>b. history_bins (fst r) = history_bins st @ [b]"
    and "stop_inv (fst r)"
    and "snd r \<longleftrightarrow> p \<le> unchanged_run (history_bins (fst r))"
proof -
  from assms(1) obtain elite new_population best_gen st2 where
    u: "update_best items C best_gen (card (set best_gen))
       (st\<lparr>population := new_population,
           history_bins := history_bins st @ [card (set best_gen)]\<rparr>) = Inr st2" and
    s: "r = early_stopping p (card (set best_gen)) st2"
    by (rule generacion_cases)
  let ?b = "card (set best_gen)"
  let ?h = "history_bins st"
  have h2: "history_bins st2 = ?h @ [?b]" using update_best_fields(2)[OF u] by simp
  have g2: "gens_without_change st2 = unchanged_run ?h"
    using update_best_fields(4)[OF u] assms(2) by (simp add: stop_inv_def)
  have l2: "last_best_bins st2 = (if ?h = [] then None else Some (last ?h))"
    using update_best_fields(3)[OF u] assms(2) by (simp add: stop_inv_def)
  have hr: "history_bins (fst r) = ?h @ [?b]" using s h2 by (simp add: early_stopping_fields)
  then show "\<exists>b. history_bins (fst r) = history_bins st @ [b]" by blast
  show "stop_inv (fst r)" using early_stopping_inv(1)[OF g2 l2 h2 assms(3)] s by simp
  show "snd r \<longleftrightarrow> p \<le> unchanged_run (history_bins (fst r))"
    using early_stopping_inv(2)[OF g2 l2 h2 assms(3)] s hr by simp
qed

lemma generaciones_history:
  "generaciones rnd items C ps rate p g st pos = Inr (st', pos') \<Longrightarrow> stop_inv st \<Longrightarrow> 0 < p \<Longrightarrow>
   \<exists>hs. history_bins st' = history_bins st @ hs \<and> length hs \<le> g \<and>
        (length hs < g \<longrightarrow> p \<le> unchanged_run (history_bins st')) \<and>
        (\<forall>j. 0 < j \<and> j < length hs \<longrightarrow> unchanged_run (history_bins st @ take j hs) < p)"
proof (induction g arbitrary: st pos)
  case 0
  then show ?case by simp
next
  case (Suc g)
  from Suc.prems(1) obtain r pos1 where
    g1: "generacion rnd items C ps rate p st pos = Inr (r, pos1)"
    by (cases "generacion rnd items C ps rate p st pos") auto
  obtain b where b: "history_bins (fst r) = history_bins st @ [b]"
    using generacion_history(1)[OF g1 Suc.prems(2,3)] by blast
  have inv1: "stop_inv (fst r)" using generacion_history(2)[OF g1 Suc.prems(2,3)] .
  have stop: "snd r \<longleftrightarrow> p \<le> unchanged_run (history_bins (fst r))"
    using generacion_history(3)[OF g1 Suc.prems(2,3)] .
  show ?case
  proof (cases "snd r")
    case True
    then have st': "st' = fst r" using Suc.prems(1) g1 by simp
    have "history_bins st' = history_bins st @ [b] \<and> length [b] \<le> Suc g \<and>
        (length [b] < Suc g \<longrightarrow> p \<le> unchanged_run (history_bins st')) \<and>
        (\<forall>j. 0 < j \<and> j < length [b] \<longrightarrow> unchanged_run (history_bins st @ take j [b]) < p)"
      using st' b stop True by simp
    then show ?thesis by blast
  next
    case False
    then have rec: "generaciones rnd items C ps rate p g (fst r) pos1 = Inr (st', pos')"
      using Suc.prems(1) g1 by simp
    from Suc.IH[OF rec inv1 Suc.prems(3)] obtain hs where
      hs: "history_bins st' = history_bins (fst r) @ hs" "length hs \<le> g"
        "length hs < g \<longrightarrow> p \<le> unchanged_run (history_bins st')"
        "\<forall>j. 0 < j \<and> j < length hs \<longrightarrow> unchanged_run (history_bins (fst r) @ take j hs) < p"
      by blast
    have small: "unchanged_run (history_bins st @ [b]) < p" using False stop b by simp
    have "unchanged_run (history_bins st @ take j (b # hs)) < p"
      if "0 < j" "j < length (b # hs)" for j
    proof (cases j)
      case 0
      then show ?thesis using that by simp
    next
      case (Suc j')
      show ?thesis
      proof (cases "j' = 0")
        case True
        then show ?thesis using Suc small by simp
      next
        case False
        then have "unchanged_run (history_bins (fst r) @ take j' hs) < p"
          using hs(4) that Suc by simp
        then show ?thesis using Suc b by simp
      qed
    qed
    then have "history_bins st' = history_bins st @ (b # hs) \<and> length (b # hs) \<le> Suc g \<and>
        (length (b # hs) < Suc g \<longrightarrow> p \<le> unchanged_run (history_bins st')) \<and>
        (\<forall>j. 0 < j \<and> j < length (b # hs) \<longrightarrow>
             unchanged_run (history_bins st @ take j (b # hs)) < p)"
      using hs(1,2,3) b by simp
    then show ?thesis by blast
  qed
qed

lemma ga_history:
  assumes "genetic_algorithm_bpp items C ps g rate rnd p = Inr (k, bins, best, hist)" "0 < p"
  shows "length hist \<le> g"
    and "length hist < g \<longrightarrow> p \<le> unchanged_run hist"
    and "\<forall>j. 0 < j \<and> j < length hist \<longrightarrow> unchanged_run (take j hist) < p"
proof -
  from assms(1) obtain population0 pos0 best0 st pos1 where
    c: "generaciones rnd items C ps rate p g
       \<lparr>population = population0, best_overall = best0,
        best_bins_overall = card (set best0), last_best_bins = None,
        gens_without_change = 0, history_bins = []\<rparr> pos0 = Inr (st, pos1)" and
    h: "hist = history_bins st"
    by (rule ga_cases)
  let ?st0 = "\<lparr>population = population0, best_overall = best0,
        best_bins_overall = card (set best0), last_best_bins = None,
        gens_without_change = 0, history_bins = []\<rparr>"
  have "stop_inv ?st0" by (simp add: stop_inv_def unchanged_run_def)
  from generaciones_history[OF c this assms(2)] obtain hs where
    "history_bins st = hs" "length hs \<le> g"
    "length hs < g \<longrightarrow> p \<le> unchanged_run (history_bins st)"
    "\<forall>j. 0 < j \<and> j < length hs \<longrightarrow> unchanged_run (take j hs) < p"
    by auto
  then show "length hist \<le> g" "length hist < g \<longrightarrow> p \<le> unchanged_run hist"
    "\<forall>j. 0 < j \<and> j < length hist \<longrightarrow> unchanged_run (take j hist) < p"
    using h by simp_all
qed

lemma generacion_two:
  assumes "length (population st) = 2" "wf_pop (length items) (population st)"
  shows "generacion rnd items C 2 rate p st pos = Inl ValueError"
proof -
  have "population st \<noteq> []" using assms(1) by auto
  then obtain elite where e: "min_key (\<lambda>s. fitness s items C) (population st) = Inr elite"
    using min_key_fitness_total[OF _ assms(2)] by blast
  have "selection rnd (population st) items C 3 pos = Inl ValueError"
    using assms(1) by (intro selection_small) simp
  then have "reproduccion rnd items C 2 rate (population st) [elite] pos = Inl ValueError"
    by (subst reproduccion.simps) simp
  then show ?thesis using e by (simp add: generacion_def)
qed

lemma ga_two:
  "genetic_algorithm_bpp items C 2 (Suc g) rate rnd p = Inl ValueError"
proof -
  obtain pop0 pos0 where
    a: "generate_population rnd (length items) 2 0 = Inr (pop0, pos0)" "length pop0 = 2"
      "wf_pop (length items) pop0"
    using generate_population_wf[of rnd "length items" 2 0] by blast
  have "pop0 \<noteq> []" using a(2) by auto
  then obtain best0 where b: "min_key (\<lambda>s. fitness s items C) pop0 = Inr best0"
    using min_key_fitness_total[OF _ a(3)] by blast
  let ?st0 = "\<lparr>population = pop0, best_overall = best0,
        best_bins_overall = card (set best0), last_best_bins = None,
        gens_without_change = 0, history_bins = []\<rparr>"
  have "generacion rnd items C 2 rate p ?st0 pos0 = Inl ValueError"
    using a(2,3) by (intro generacion_two) simp_all
  then have "generaciones rnd items C 2 rate p (Suc g) ?st0 pos0 = Inl ValueError"
    by simp
  then show ?thesis using a(1) b by (simp add: genetic_algorithm_bpp_def)
qed

lemma generacion_one:
  assumes "length (population st) = 1" "ga_inv (length items) st"
  shows "\<exists>r pos'. generacion rnd items C 1 rate p st pos = Inr (r, pos') \<and>
           length (population (fst r)) = 1"
proof -
  have wf: "wf_pop (length items) (population st)" and lb: "length (best_overall st) = length items"
    using assms(2) by (simp_all add: ga_inv_def)
  have ne: "population st \<noteq> []" using assms(1) by auto
  obtain elite where e: "min_key (\<lambda>s. fitness s items C) (population st) = Inr elite"
    "elite \<in> set (population st)"
    using min_key_fitness_total[OF ne wf] by blast
  have le: "length elite = length items" using e(2) wf by (simp add: wf_pop_def)
  have r: "reproduccion rnd items C 1 rate (population st) [elite] pos = Inr ([elite], pos)"
    by (subst reproduccion.simps) simp
  have wfe: "wf_pop (length items) [elite]" using le by (simp add: wf_pop_def)
  obtain best_gen where b: "min_key (\<lambda>s. fitness s items C) [elite] = Inr best_gen"
    "best_gen \<in> set [elite]"
    using min_key_fitness_total[OF _ wfe] by blast
  then have lg: "length best_gen = length items" using le by simp
  let ?st1 = "st\<lparr>population := [elite],
                 history_bins := history_bins st @ [card (set best_gen)]\<rparr>"
  obtain st2 where u: "update_best items C best_gen (card (set best_gen)) ?st1 = Inr st2"
    using update_best_total[of best_gen items ?st1] lg lb by auto
  have "population st2 = [elite]" using update_best_fields(1)[OF u] by simp
  then have "length (population (fst (early_stopping p (card (set best_gen)) st2))) = 1"
    by (simp add: early_stopping_fields)
  then show ?thesis using e(1) r b(1) u by (simp add: generacion_def Let_def)
qed

lemma generaciones_one:
  "length (population st) = 1 \<Longrightarrow> ga_inv (length items) st \<Longrightarrow>
   \<exists>st' pos'. generaciones rnd items C 1 rate p g st pos = Inr (st', pos')"
proof (induction g arbitrary: st pos)
  case 0
  show ?case by simp
next
  case (Suc g)
  obtain r pos1 where g1: "generacion rnd items C 1 rate p st pos = Inr (r, pos1)"
    "length (population (fst r)) = 1"
    using generacion_one[OF Suc.prems] by blast
  have "ga_inv (length items) (fst r)" using g1(1) Suc.prems(2) by (rule generacion_inv)
  with g1(2) have "\<exists>st' pos'. generaciones rnd items C 1 rate p g (fst r) pos1 = Inr (st', pos')"
    by (rule Suc.IH)
  then show ?case using g1(1) by auto
qed

lemma ga_one:
  "\<exists>r. genetic_algorithm_bpp items C 1 g rate rnd p = Inr r"
proof -
  obtain pop0 pos0 where
    a: "generate_population rnd (length items) 1 0 = Inr (pop0, pos0)" "length pop0 = 1"
      "wf_pop (length items) pop0"
    using generate_population_wf[of rnd "length items" 1 0] by blast
  have "pop0 \<noteq> []" using a(2) by auto
  then obtain best0 where b: "min_key (\<lambda>s. fitness s items C) pop0 = Inr best0"
    "best0 \<in> set pop0"
    using min_key_fitness_total[OF _ a(3)] by blast
  let ?st0 = "\<lparr>population = pop0, best_overall = best0,
        best_bins_overall = card (set best0), last_best_bins = None,
        gens_without_change = 0, history_bins = []\<rparr>"
  have inv0: "ga_inv (length items) ?st0" using a(3) b(2) by (simp add: ga_inv_def wf_pop_def)
  have "length (population ?st0) = 1" using a(2) by simp
  then obtain st pos1 where c: "generaciones rnd items C 1 rate p g ?st0 pos0 = Inr (st, pos1)"
    using generaciones_one[OF _ inv0] by blast
  have inv: "ga_inv (length items) st" using c inv0 by (rule generaciones_inv)
  then have wf: "wf_pop (length items) (best_overall st # population st)"
    by (simp add: ga_inv_def wf_pop_def)
  obtain best where d: "min_key (\<lambda>s. fitness s items C) (best_overall st # population st) = Inr best"
    "best \<in> set (best_overall st # population st)"
    using min_key_fitness_total[OF _ wf] by blast
  have "length best = length items" using d(2) wf by (auto simp: wf_pop_def)
  then have "decodificar_bins best items = Inr (bins_of best items)"
    by (simp add: decodificar_bins_eq)
  then show ?thesis using a(1) b(1) c d(1) by (simp add: genetic_algorithm_bpp_def)
qed

lemma sample_draw_length: "length (fst (sample_draw rnd pop k pos)) = k"
  by (induction k arbitrary: pop pos) (simp_all add: Let_def)

lemma selection_total:
  assumes "k \<le> length pop" "0 < k" "wf_pop (length items) pop"
  shows "\<exists>s pos'. selection rnd pop items C k pos = Inr (s, pos') \<and> s \<in> set pop"
proof -
  let ?cs = "fst (sample_draw rnd pop k pos)"
  have "length ?cs = k" by (rule sample_draw_length)
  then have ne: "?cs \<noteq> []" using assms(2) by auto
  have "set ?cs \<subseteq> set pop" using assms(1) by (rule sample_draw_subset)
  then have wf: "wf_pop (length items) ?cs" using assms(3) by (auto simp: wf_pop_def)
  obtain s where s: "min_key (\<lambda>s. fitness s items C) ?cs = Inr s"
    using min_key_fitness_total[OF ne wf] by blast
  then have "selection rnd pop items C k pos = Inr (s, snd (sample_draw rnd pop k pos))"
    using assms(1) by (cases "sample_draw rnd pop k pos") (simp add: selection_def sample_def)
  then show ?thesis using selection_mem by blast
qed

lemma random_float_below_one: "fst (random_float rnd pos) < 1"
  by (simp add: random_float_def)

lemma mutate_empty: "mutate rnd [] 1 pos = Inl ValueError"
  using random_float_below_one[of rnd pos]
  by (simp add: mutate_def randint_def Let_def)

lemma crossover_short:
  "length parent1 < 2 \<Longrightarrow> crossover rnd parent1 parent2 pos = Inr ((parent1, parent2), pos)"
  by (simp add: crossover_def)

lemma crossover_two:
  "length parent1 = 2 \<Longrightarrow> crossover rnd parent1 parent2 pos = Inl ValueError"
  by (simp add: crossover_def randint_def)

lemma crossover_long:
  assumes "3 \<le> length parent1"
  shows "\<exists>point. 1 \<le> point \<and> point \<le> length parent1 - 2 \<and>
           crossover rnd parent1 parent2 pos =
             Inr ((take point parent1 @ drop point parent2,
                   take point parent2 @ drop point parent1), Suc pos)"
proof -
  let ?n = "int (length parent1)"
  let ?p = "1 + int (rnd pos) mod (?n - 2)"
  have pos: "0 < ?n - 2" using assms by simp
  have lo: "0 \<le> int (rnd pos) mod (?n - 2)" using pos by simp
  have hi: "int (rnd pos) mod (?n - 2) < ?n - 2" using pos by simp
  have "crossover rnd parent1 parent2 pos =
          Inr ((take (nat ?p) parent1 @ drop (nat ?p) parent2,
                take (nat ?p) parent2 @ drop (nat ?p) parent1), Suc pos)"
    using assms by (simp add: crossover_def randint_def Let_def)
  moreover have "1 \<le> nat ?p" using lo by simp
  moreover have "nat ?p \<le> length parent1 - 2" using lo hi by linarith
  ultimately show ?thesis by blast
qed

lemma reproduccion_empty_items:
  assumes "3 \<le> length pop" "wf_pop 0 pop" "length new_pop < ps"
  shows "reproduccion rnd [] C ps 1 pop new_pop pos = Inl ValueError"
proof -
  have wf: "wf_pop (length ([]::int list)) pop" using assms(2) by simp
  obtain p1 pos1 where s1: "selection rnd pop [] C 3 pos = Inr (p1, pos1)" "p1 \<in> set pop"
    using selection_total[OF assms(1) _ wf, of rnd C pos] by auto
  obtain p2 pos2 where s2: "selection rnd pop [] C 3 pos1 = Inr (p2, pos2)" "p2 \<in> set pop"
    using selection_total[OF assms(1) _ wf, of rnd C pos1] by auto
  have "p1 = []" "p2 = []" using s1(2) s2(2) assms(2) by (auto simp: wf_pop_def)
  then show ?thesis
    using s1(1) s2(1) assms(3)
    by (subst reproduccion.simps) (simp add: crossover_short mutate_empty)
qed

lemma ga_empty_items_fails:
  "genetic_algorithm_bpp [] C 3 (Suc g) 1 rnd p = Inl ValueError"
proof -
  obtain pop0 pos0 where
    a: "generate_population rnd (length ([]::int list)) 3 0 = Inr (pop0, pos0)" "length pop0 = 3"
      "wf_pop (length ([]::int list)) pop0"
    using generate_population_wf[of rnd "length ([]::int list)" 3 0] by blast
  have ne: "pop0 \<noteq> []" using a(2) by auto
  obtain best0 where b: "min_key (\<lambda>s. fitness s [] C) pop0 = Inr best0"
    using min_key_fitness_total[OF ne a(3)] by blast
  let ?st0 = "\<lparr>population = pop0, best_overall = best0,
        best_bins_overall = card (set best0), last_best_bins = None,
        gens_without_change = 0, history_bins = []\<rparr>"
  have "reproduccion rnd [] C 3 1 pop0 [best0] pos0 = Inl ValueError"
    using a(2,3) by (intro reproduccion_empty_items) simp_all
  then have "generacion rnd [] C 3 1 p ?st0 pos0 = Inl ValueError"
    using b by (simp add: generacion_def)
  then have "generaciones rnd [] C 3 1 p (Suc g) ?st0 pos0 = Inl ValueError"
    by simp
  then show ?thesis using a(1) b by (simp add: genetic_algorithm_bpp_def)
qed

lemma empty_input_greedy_exact:
  "next_fit C [] = (0, [])" "first_fit C [] = (0, [])" "best_fit C [] = (0, [])"
  "first_fit_decreasing C [] = (0, [])" "best_fit_decreasing C [] = (0, [])"
  "resultado_optimo C [] = Inr (0, [])"
  by (simp_all add: next_fit_def first_fit_def best_fit_def first_fit_decreasing_def
      best_fit_decreasing_def sorted_reverse_def resultado_optimo_def zero_enat_def Let_def)

section \<open>The claims\<close>

subsection \<open>C1: the exact solver returns an optimal packing\<close>

text \<open>
  C1, as stated, fails for an item larger than the capacity: the solver opens a bin
  for it without any check, and the returned packing is not valid.
\<close>

theorem C1_counterexample:
  "resultado_optimo 5 [7] = Inr (1, [[7]]) \<and> \<not> valid_packing 5 [7] [[7]]"
proof -
  have "true_div 7 5 \<noteq> Inl OverflowError" by (rule true_div_no_overflow) simp_all
  then show ?thesis
    by (simp add: resultado_optimo_def calcular_lower_bound_def ceil_div_def
        valid_packing_def one_enat_def zero_enat_def)
qed

text \<open>
  C1, amended: for every capacity \<open>C > 0\<close> and every list of item sizes with
  \<open>0 < x \<le> C\<close>, \<open>resultado_optimo\<close> returns without error a finite bin count and a
  packing \<open>B\<close> with that many bins; \<open>B\<close> is a valid packing of the items (a
  partition into bins of total size at most \<open>C\<close>), and no valid packing of the
  items has fewer bins. The function is total, so the search terminates.
\<close>

theorem C1_resultado_optimo_optimal:
  assumes "0 < C" and "\<forall>x\<in>set items. 0 < x \<and> x \<le> C"
  shows "\<exists>B. resultado_optimo C items = Inr (enat (length B), B) \<and>
             valid_packing C items B \<and>
             (\<forall>P. valid_packing C items P \<longrightarrow> length B \<le> length P)"
proof -
  have nn: "\<forall>w\<in>set items. 0 \<le> w \<and> w \<le> C" using assms(2) by auto
  obtain B where B: "resultado_optimo C items = Inr (enat (length B), B)"
    "leaf C [] items B"
    using resultado_optimo_fitting[OF assms(1) nn] branch_and_bound_leaf[of C items] by auto
  have fit: "\<forall>w\<in>set items. w \<le> C" using assms(2) by simp
  have "feasible C B" using leaf_feasible[OF B(2) _ fit] by simp
  moreover have "mset (concat B) = mset items" using leaf_mset[OF B(2)] by simp
  ultimately have valid: "valid_packing C items B" by (simp add: valid_packing_def)
  have "length B \<le> length P" if "valid_packing C items P" for P
    using resultado_optimo_minimal[OF assms(1) nn B(1) that] by simp
  then show ?thesis using B(1) valid by blast
qed

theorem C1_witness:
  "(0::int) < 10 \<and> list_all (\<lambda>x. 0 < x \<and> x \<le> (10::int)) [6, 5, 4, 3] \<and>
   (\<exists>B. resultado_optimo 10 [6, 5, 4, 3] = Inr (enat (length B), B) \<and>
        valid_packing 10 [6, 5, 4, 3] B \<and> length B \<le> 2)"
proof -
  have h1: "(0::int) < 10" by simp
  have h2: "\<forall>x\<in>set [6, 5, 4, 3::int]. 0 < x \<and> x \<le> 10" by simp
  have v: "valid_packing 10 [6, 5, 4, 3] [[6, 4], [5, 3]]"
    by (simp add: valid_packing_def)
  from C1_resultado_optimo_optimal[OF h1 h2] obtain B where
    B: "resultado_optimo 10 [6, 5, 4, 3] = Inr (enat (length B), B)"
       "valid_packing 10 [6, 5, 4, 3] B"
       "\<forall>P. valid_packing 10 [6, 5, 4, 3] P \<longrightarrow> length B \<le> length P"
    by blast
  from B(3) v have "length B \<le> length [[6, 4], [5, 3::int]]" by blast
  then have "length B \<le> 2" by simp
  with B(1,2) show ?thesis by auto
qed

subsection \<open>C2: the greedy packers and the theoretical minimum\<close>




subsection \<open>C4: no bin of a greedy or exact packing exceeds the capacity\<close>

text \<open>
  C4, as stated, fails for an item larger than the capacity: every packer opens a
  bin for such an item without any check.
\<close>

theorem C4_counterexample:
  "next_fit 5 [7] = (1, [[7]]) \<and> \<not> feasible 5 [[7]]"
  by (simp add: next_fit_def)

text \<open>
  C4, amended: for every capacity \<open>C > 0\<close> and every list of item sizes with
  \<open>0 < x \<le> C\<close>, every bin of the packing returned by each of the five greedy
  packers and by \<open>resultado_optimo\<close> has total size at most \<open>C\<close>.
\<close>

theorem C4_bins_within_capacity:
  assumes "0 < C" and "\<forall>x\<in>set items. 0 < x \<and> x \<le> C"
  shows "feasible C (snd (next_fit C items)) \<and>
         feasible C (snd (first_fit C items)) \<and>
         feasible C (snd (best_fit C items)) \<and>
         feasible C (snd (first_fit_decreasing C items)) \<and>
         feasible C (snd (best_fit_decreasing C items)) \<and>
         (\<exists>r. resultado_optimo C items = Inr r \<and> feasible C (snd r))"
proof -
  have fit: "\<forall>w\<in>set items. w \<le> C" using assms(2) by simp
  have fit': "\<forall>w\<in>set (sorted_reverse items). w \<le> C" using fit by simp
  have nn: "\<forall>w\<in>set items. 0 \<le> w \<and> w \<le> C" using assms(2) by auto
  obtain B where B: "resultado_optimo C items = Inr (enat (length B), B)"
    "leaf C [] items B"
    using resultado_optimo_fitting[OF assms(1) nn] branch_and_bound_leaf[of C items] by auto
  have "feasible C B" using leaf_feasible[OF B(2) _ fit] by simp
  then have "\<exists>r. resultado_optimo C items = Inr r \<and> feasible C (snd r)"
    using B(1) by simp
  then show ?thesis
    using next_fit_valid[OF fit] first_fit_valid[OF fit] best_fit_valid[OF fit]
      first_fit_valid[OF fit'] best_fit_valid[OF fit']
    by (simp add: valid_packing_def first_fit_decreasing_def best_fit_decreasing_def)
qed

theorem C4_witness:
  "(0::int) < 10 \<and> list_all (\<lambda>x. 0 < x \<and> x \<le> (10::int)) [6, 5, 4, 3] \<and>
   feasible 10 (snd (next_fit 10 [6, 5, 4, 3])) \<and>
   feasible 10 (snd (best_fit 10 [6, 5, 4, 3]))"
proof -
  have h1: "(0::int) < 10" by simp
  have h2: "\<forall>x\<in>set [6, 5, 4, 3::int]. 0 < x \<and> x \<le> 10" by simp
  from C4_bins_within_capacity[OF h1 h2] show ?thesis by simp
qed

subsection \<open>C6: the decreasing variants against their counterparts\<close>

text \<open>
  C6, as stated, fails: with capacity 10 and items 5, 3, 2, 4, 4, 2 First Fit and
  Best Fit use two bins, their decreasing variants three.
\<close>

theorem C6_counterexample:
  "fst (first_fit 10 [5, 3, 2, 4, 4, 2]) = 2 \<and>
   fst (first_fit_decreasing 10 [5, 3, 2, 4, 4, 2]) = 3 \<and>
   fst (best_fit 10 [5, 3, 2, 4, 4, 2]) = 2 \<and>
   fst (best_fit_decreasing 10 [5, 3, 2, 4, 4, 2]) = 3"
  by code_simp

text \<open>
  C6, amended: on an item list that is already in non-increasing order the
  decreasing variants return what their counterparts return, so their bin counts
  are not larger; on other lists no order between the counts is promised.
\<close>

theorem C6_decreasing_on_sorted:
  assumes "sorted_wrt (\<lambda>a b. b \<le> a) items"
  shows "first_fit_decreasing C items = first_fit C items \<and>
         best_fit_decreasing C items = best_fit C items \<and>
         fst (first_fit_decreasing C items) \<le> fst (first_fit C items) \<and>
         fst (best_fit_decreasing C items) \<le> fst (best_fit C items)"
proof -
  have "sorted (map (\<lambda>x. - x) items)"
    using assms by (simp add: sorted_map)
  then have "sorted_reverse items = items" by (rule sorted_reverse_id)
  then show ?thesis by (simp add: first_fit_decreasing_def best_fit_decreasing_def)
qed

theorem C6_witness:
  "sorted_wrt (\<lambda>a b. b \<le> a) [6, 5, 4, 3::int] \<and>
   first_fit_decreasing 10 [6, 5, 4, 3] = first_fit 10 [6, 5, 4, 3] \<and>
   fst (best_fit_decreasing 10 [6, 5, 4, 3]) \<le> fst (best_fit 10 [6, 5, 4, 3])"
proof -
  have h: "sorted_wrt (\<lambda>a b. b \<le> a) [6, 5, 4, 3::int]" by simp
  from C6_decreasing_on_sorted[OF h, of 10] h show ?thesis by simp
qed

subsection \<open>C3: every solver returns a partition of the items\<close>




subsection \<open>C5: feasibility of the genetic solver's packing\<close>

text \<open>
  C5, as stated, fails: the code has no feasibility check. With capacity 5, items 3
  and 3, a population of one and draws that give both items the same label, the
  returned packing is the single bin \<open>[3, 3]\<close>.
\<close>

theorem C5_counterexample:
  "genetic_algorithm_bpp [3, 3] 5 1 3 0 (\<lambda>i. 0) 2 = Inr (1, [[3, 3]], [0, 0], [1, 1, 1]) \<and>
   \<not> feasible 5 [[3, 3]]"
proof -
  have "genetic_algorithm_bpp [3, 3] 5 1 3 0 (\<lambda>i. 0) 2 = Inr (1, [[3, 3]], [0, 0], [1, 1, 1])"
    by code_simp
  then show ?thesis by simp
qed

text \<open>
  C5, amended: whenever \<open>genetic_algorithm_bpp\<close> returns, for any capacity, items,
  parameters and stream of random draws, every bin of the decoded final packing has
  total size at most \<open>C\<close> exactly when the fitness of the returned vector equals the
  returned bin count, that is, when its overflow penalty is zero.
\<close>

theorem C5_feasible_iff_no_penalty:
  assumes "genetic_algorithm_bpp items C population_size generations mutation_rate rnd patience
             = Inr (k, bins, best, hist)"
  shows "feasible C bins \<longleftrightarrow> fitness best items C = Inr (int k)"
  using ga_result[OF assms] fitness_feasible[of best items C] by simp

theorem C5_witness:
  "genetic_algorithm_bpp [3, 3, 2] 5 1 3 0 (\<lambda>i. i) 2
     = Inr (3, [[3], [3], [2]], [0, 1, 2], [3, 3, 3]) \<and>
   fitness [0, 1, 2] [3, 3, 2] 5 = Inr 3 \<and> feasible 5 [[3], [3], [2]]"
proof -
  have run: "genetic_algorithm_bpp [3, 3, 2] 5 1 3 0 (\<lambda>i. i) 2
     = Inr (3, [[3], [3], [2]], [0, 1, 2], [3, 3, 3])"
    by code_simp
  have fit: "fitness [0, 1, 2] [3, 3, 2] 5 = Inr 3" by code_simp
  from C5_feasible_iff_no_penalty[OF run] fit have "feasible 5 [[3], [3], [2]]" by simp
  with run fit show ?thesis by simp
qed

subsection \<open>C7: the empty item list\<close>

text \<open>
  C7: on the empty item list the five greedy packers and the exact solver return
  zero bins and the empty packing. The genetic solver does not: with a population of
  three, one generation and mutation rate 1, \<open>mutate\<close> draws an index from the empty
  range \<open>randint(0, -1)\<close> and the call raises \<open>ValueError\<close>, for every stream of draws.
\<close>

theorem C7_empty_input:
  "next_fit C [] = (0, []) \<and> first_fit C [] = (0, []) \<and> best_fit C [] = (0, []) \<and>
   first_fit_decreasing C [] = (0, []) \<and> best_fit_decreasing C [] = (0, []) \<and>
   resultado_optimo C [] = Inr (0, []) \<and>
   genetic_algorithm_bpp [] C 3 (Suc g) 1 rnd p = Inl ValueError"
  by (simp add: empty_input_greedy_exact ga_empty_items_fails)

subsection \<open>C8: crossover\<close>

text \<open>
  C8: for parents of length 2 the guard \<open>len(parent1) < 2\<close> does not apply and the
  cut point is drawn from the empty range \<open>randint(1, 0)\<close>: \<open>crossover\<close> raises
  \<open>ValueError\<close> instead of returning two children.
\<close>

theorem C8_crossover_length_two:
  "crossover rnd [a, b] [c, d] pos = Inl ValueError"
  by (simp add: crossover_two)

subsection \<open>C9: the generation loop and early stopping\<close>

text \<open>
  C9: whenever \<open>genetic_algorithm_bpp\<close> returns with \<open>patience_no_change > 0\<close>, the
  history has one entry per iteration run, at most \<open>generations\<close> of them; if the
  loop ran fewer than \<open>generations\<close> iterations, the last \<open>patience_no_change\<close>
  generations each repeated the best bin count of the generation before; and at no
  earlier iteration had that many consecutive generations repeated it, so the loop
  stops at the first such point. A generation whose count differs from the one
  before it has \<open>unchanged_run = 0\<close>: any change resets the counter.
\<close>

theorem C9_early_stopping:
  assumes "genetic_algorithm_bpp items C population_size generations mutation_rate rnd patience
             = Inr (k, bins, best, hist)"
    and "0 < patience"
  shows "length hist \<le> generations \<and>
         (length hist < generations \<longrightarrow> patience \<le> unchanged_run hist) \<and>
         (\<forall>j. 0 < j \<and> j < length hist \<longrightarrow> unchanged_run (take j hist) < patience) \<and>
         (\<forall>h a b. a \<noteq> b \<longrightarrow> unchanged_run (h @ [a, b]) = 0)"
proof -
  have "unchanged_run (h @ [a, b]) = 0" if "a \<noteq> b" for h a b
    using that unchanged_run_snoc[of "h @ [a]" b] by simp
  then show ?thesis using ga_history[OF assms] by blast
qed

theorem C9_witness:
  "genetic_algorithm_bpp [3, 3] 5 1 5 0 (\<lambda>i. 0) 2 = Inr (1, [[3, 3]], [0, 0], [1, 1, 1]) \<and>
   (0::nat) < 2 \<and> length [1, 1, 1::nat] \<le> 5 \<and> 2 \<le> unchanged_run [1, 1, 1] \<and>
   unchanged_run (take 2 [1, 1, 1]) < 2"
proof -
  have run: "genetic_algorithm_bpp [3, 3] 5 1 5 0 (\<lambda>i. 0) 2
     = Inr (1, [[3, 3]], [0, 0], [1, 1, 1])"
    by code_simp
  have p: "(0::nat) < 2" by simp
  note th = C9_early_stopping[OF run p]
  from th have a: "length [1, 1, 1::nat] \<le> 5" by blast
  from th have "length [1, 1, 1::nat] < 5 \<longrightarrow> 2 \<le> unchanged_run [1, 1, 1]" by blast
  then have b: "2 \<le> unchanged_run [1, 1, 1]" by simp
  from th have "\<forall>j. 0 < j \<and> j < length [1, 1, 1::nat] \<longrightarrow>
      unchanged_run (take j [1, 1, 1]) < 2" by blast
  then have "0 < (2::nat) \<and> 2 < length [1, 1, 1::nat] \<longrightarrow>
      unchanged_run (take 2 [1, 1, 1]) < 2" by (rule spec)
  then have c: "unchanged_run (take 2 [1, 1, 1]) < 2" by simp
  from run p a b c show ?thesis by blast
qed

subsection \<open>C10: populations of one and two\<close>

text \<open>
  C10: with \<open>population_size = 2\<close>, a non-empty item list and at least one generation,
  the tournament samples three individuals from a population of two and the call
  raises \<open>ValueError\<close>, for every capacity, mutation rate, patience and stream of
  draws; with \<open>population_size = 1\<close> the reproduction loop is never entered and the
  call returns a result.
\<close>

theorem C10_population_two_and_one:
  assumes "items \<noteq> []" and "0 < generations"
  shows "genetic_algorithm_bpp items C 2 generations mutation_rate rnd patience = Inl ValueError \<and>
         (\<forall>pop pos. length pop = 2 \<longrightarrow> selection rnd pop items C 3 pos = Inl ValueError) \<and>
         (\<exists>r. genetic_algorithm_bpp items C 1 generations mutation_rate rnd patience = Inr r) \<and>
         (\<forall>pop elite pos. reproduccion rnd items C 1 mutation_rate pop [elite] pos
                             = Inr ([elite], pos))"
proof -
  obtain g where g: "generations = Suc g" using assms(2) by (cases generations) simp_all
  have "reproduccion rnd items C 1 mutation_rate pop [elite] pos = Inr ([elite], pos)"
    for pop elite pos
    by (subst reproduccion.simps) simp
  then show ?thesis
    using ga_two[of items C g mutation_rate rnd patience] ga_one[of items C generations]
    by (simp add: g selection_small)
qed

theorem C10_witness:
  "[3, 3, 2::int] \<noteq> [] \<and> (0::nat) < 1 \<and>
   genetic_algorithm_bpp [3, 3, 2] 5 2 1 0 (\<lambda>i. i) 2 = Inl ValueError \<and>
   (\<exists>r. genetic_algorithm_bpp [3, 3, 2] 5 1 1 0 (\<lambda>i. i) 2 = Inr r)"
proof -
  have h1: "[3, 3, 2::int] \<noteq> []" by simp
  have h2: "(0::nat) < 1" by simp
  from C10_population_two_and_one[OF h1 h2, of 5 0 "\<lambda>i. i" 2] show ?thesis by simp
qed

end
